theory Spec2Isabelle
  imports Main
begin

section \<open>Option parser (\<open>parseArgs\<close> of bin/mmd2excalidraw.mjs)\<close>

text \<open>
  JavaScript numbers as the parser can produce them: \<open>Number.parseInt\<close> returns an
  integer or the not-a-number value. The model keeps the integer exactly; JavaScript
  does so for magnitudes up to \<open>2 ^ 53\<close>.
\<close>

datatype jsnum = Num int | NaN

record conversion_options =
  fontSize :: jsnum
  curve :: string
  maxEdges :: jsnum
  maxTextSize :: jsnum

definition DEFAULTS :: conversion_options where
  "DEFAULTS = \<lparr> fontSize = Num 16, curve = ''linear'', maxEdges = Num 500, maxTextSize = Num 50000 \<rparr>"

text \<open>\<open>arg.startsWith(p)\<close> and \<open>name.endsWith(p)\<close>.\<close>

definition startsWith :: "string \<Rightarrow> string \<Rightarrow> bool" where
  "startsWith s p = (take (length p) s = p)"

definition endsWith :: "string \<Rightarrow> string \<Rightarrow> bool" where
  "endsWith s p = (length p \<le> length s \<and> drop (length s - length p) s = p)"

text \<open>
  \<open>Number.parseInt(v, 10)\<close>: leading white space is skipped, one sign is read, then the
  longest run of decimal digits; no digit gives \<open>NaN\<close>. The argument is \<open>argv[i + 1]\<close>,
  which is \<open>undefined\<close> (here \<open>None\<close>) past the end of the array; \<open>undefined\<close> is
  converted to the text "undefined" and gives \<open>NaN\<close>. White space is the ASCII part of
  JavaScript's set.
\<close>

definition is_js_space :: "char \<Rightarrow> bool" where
  "is_js_space c = (of_char c \<in> {9, 10, 11, 12, 13, 32 :: nat})"

definition is_digit :: "char \<Rightarrow> bool" where
  "is_digit c = (48 \<le> (of_char c :: nat) \<and> (of_char c :: nat) \<le> 57)"

definition digits_value :: "string \<Rightarrow> int" where
  "digits_value ds = foldl (\<lambda>acc c. 10 * acc + (int (of_char c) - 48)) 0 ds"

definition parseInt :: "string option \<Rightarrow> jsnum" where
  "parseInt a =
     (case a of
        None \<Rightarrow> NaN
      | Some s \<Rightarrow>
          (let t = dropWhile is_js_space s;
               neg = (t \<noteq> [] \<and> hd t = CHR ''-'');
               u = (if t \<noteq> [] \<and> (hd t = CHR ''-'' \<or> hd t = CHR ''+'') then tl t else t);
               ds = takeWhile is_digit u
           in if ds = [] then NaN
              else Num (if neg then - digits_value ds else digits_value ds)))"

text \<open>
  The three mutable locals of \<open>parseArgs\<close>. \<open>output\<close> is \<open>null\<close> or \<open>undefined\<close> (\<open>None\<close>)
  or a string.
\<close>

record parse_state =
  ps_options :: conversion_options
  ps_output :: "string option"
  ps_positionals :: "string list"

definition initial_state :: parse_state where
  "initial_state = \<lparr> ps_options = DEFAULTS, ps_output = None, ps_positionals = [] \<rparr>"

text \<open>\<open>argv[i + 1]\<close> seen from index \<open>i\<close>, where \<open>rest\<close> is the array after index \<open>i\<close>.\<close>

definition next_arg :: "string list \<Rightarrow> string option" where
  "next_arg rest = (case rest of [] \<Rightarrow> None | v # _ \<Rightarrow> Some v)"

text \<open>\<open>argv[i + 1] || DEFAULTS.curve\<close>: the empty string and \<open>undefined\<close> are falsy.\<close>

definition curve_or_default :: "string option \<Rightarrow> string" where
  "curve_or_default a = (case a of None \<Rightarrow> curve DEFAULTS | Some v \<Rightarrow> if v = [] then curve DEFAULTS else v)"

text \<open>
  The chain of tests the loop body applies to one token, in the order of the source:
  \<open>-h\<close>/\<open>--help\<close>, \<open>-o\<close>/\<open>--output\<close>, \<open>--font-size\<close>, \<open>--curve\<close>, \<open>--max-edges\<close>,
  \<open>--max-text-size\<close>, then \<open>arg.startsWith("--")\<close>, and the positional case last.
\<close>

datatype arg_kind =
  KHelp | KOutput | KFontSize | KCurve | KMaxEdges | KMaxTextSize | KUnknown | KPositional

definition classify :: "string \<Rightarrow> arg_kind" where
  "classify arg =
     (if arg = ''-h'' \<or> arg = ''--help'' then KHelp
      else if arg = ''-o'' \<or> arg = ''--output'' then KOutput
      else if arg = ''--font-size'' then KFontSize
      else if arg = ''--curve'' then KCurve
      else if arg = ''--max-edges'' then KMaxEdges
      else if arg = ''--max-text-size'' then KMaxTextSize
      else if startsWith arg ''--'' then KUnknown
      else KPositional)"

text \<open>
  The \<open>for\<close> loop over \<open>argv\<close>. It stops early in two ways: \<open>-h\<close>/\<open>--help\<close> prints the
  usage and calls \<open>process.exit(0)\<close>; an unrecognised token starting with \<open>--\<close> throws.
  A value-taking option reads \<open>argv[i + 1]\<close> and skips it (\<open>i += 1\<close>).
\<close>

datatype loop_stop = StopHelp | StopUnknown string

fun arg_loop :: "parse_state \<Rightarrow> string list \<Rightarrow> loop_stop + parse_state" where
  "arg_loop st [] = Inr st"
| "arg_loop st (arg # rest) =
     (case classify arg of
        KHelp \<Rightarrow> Inl StopHelp
      | KOutput \<Rightarrow> arg_loop (st\<lparr>ps_output := next_arg rest\<rparr>) (drop 1 rest)
      | KFontSize \<Rightarrow>
          arg_loop (st\<lparr>ps_options := (ps_options st)\<lparr>fontSize := parseInt (next_arg rest)\<rparr>\<rparr>)
            (drop 1 rest)
      | KCurve \<Rightarrow>
          arg_loop (st\<lparr>ps_options := (ps_options st)\<lparr>curve := curve_or_default (next_arg rest)\<rparr>\<rparr>)
            (drop 1 rest)
      | KMaxEdges \<Rightarrow>
          arg_loop (st\<lparr>ps_options := (ps_options st)\<lparr>maxEdges := parseInt (next_arg rest)\<rparr>\<rparr>)
            (drop 1 rest)
      | KMaxTextSize \<Rightarrow>
          arg_loop (st\<lparr>ps_options := (ps_options st)\<lparr>maxTextSize := parseInt (next_arg rest)\<rparr>\<rparr>)
            (drop 1 rest)
      | KUnknown \<Rightarrow> Inl (StopUnknown arg)
      | KPositional \<Rightarrow> arg_loop (st\<lparr>ps_positionals := ps_positionals st @ [arg]\<rparr>) rest)"

record parsed_args =
  pa_input :: string
  pa_output :: "string option"
  pa_options :: conversion_options

text \<open>
  What a call of \<open>parseArgs\<close> ends in: the process exits with code 0 after the usage was
  printed, an \<open>Error\<close> is thrown (with its message, and whether the usage was printed
  before), or the parsed arguments are returned.
\<close>

datatype parse_result =
    HelpExit
  | Thrown bool string
  | Returned parsed_args

text \<open>\<open>output ?? positionals[1] ?? null\<close>.\<close>

definition final_output :: "parse_state \<Rightarrow> string option" where
  "final_output st =
     (case ps_output st of
        Some v \<Rightarrow> Some v
      | None \<Rightarrow> (if 1 < length (ps_positionals st) then Some (ps_positionals st ! 1) else None))"

definition parseArgs :: "string list \<Rightarrow> parse_result" where
  "parseArgs argv =
     (case arg_loop initial_state argv of
        Inl StopHelp \<Rightarrow> HelpExit
      | Inl (StopUnknown arg) \<Rightarrow> Thrown False (''Unknown option: '' @ arg)
      | Inr st \<Rightarrow>
          (if ps_positionals st = [] then Thrown True ''Missing input path.''
           else Returned \<lparr> pa_input = hd (ps_positionals st),
                           pa_output = final_output st,
                           pa_options = ps_options st \<rparr>))"

section \<open>The rendering configuration built inside the page\<close>






section \<open>The option contract in the words of the specification\<close>

text \<open>
  The tokens the specification calls recognised, the options that take a value, and
  which tokens of an argument sequence are consumed as the value of the value-taking
  option before them (scanning from the left, a value-taking option consumes the token
  after it, whatever it is).
\<close>

definition is_help_flag :: "string \<Rightarrow> bool" where
  "is_help_flag a = (a = ''-h'' \<or> a = ''--help'')"

definition takes_value :: "string \<Rightarrow> bool" where
  "takes_value a =
     (a = ''-o'' \<or> a = ''--output'' \<or> a = ''--font-size'' \<or> a = ''--curve''
      \<or> a = ''--max-edges'' \<or> a = ''--max-text-size'')"

definition unrecognised_flag :: "string \<Rightarrow> bool" where
  "unrecognised_flag a =
     (startsWith a ''--'' \<and> a \<noteq> ''--help'' \<and> a \<noteq> ''--output'' \<and> a \<noteq> ''--font-size''
      \<and> a \<noteq> ''--curve'' \<and> a \<noteq> ''--max-edges'' \<and> a \<noteq> ''--max-text-size'')"


fun value_marks :: "string list \<Rightarrow> bool list" where
  "value_marks [] = []"
| "value_marks [a] = [False]"
| "value_marks (a # v # rest) =
     (if takes_value a then False # True # value_marks rest else False # value_marks (v # rest))"

section \<open>Paths: the functions of \<open>node:path\<close> the program calls (POSIX flavour)\<close>

text \<open>
  The program computes every file name with \<open>path.normalize\<close>, \<open>path.join\<close>,
  \<open>path.resolve\<close>, \<open>path.relative\<close> and \<open>path.basename\<close>. They belong to the platform,
  not to the repository; they are modelled here after Node's POSIX implementation: a
  path is cut at every \<open>/\<close>, empty and \<open>.\<close> segments are dropped, \<open>..\<close> removes the
  segment before it (or is kept, in a relative path, when there is none to remove), and
  the pieces are put together again.
\<close>

fun split_path :: "string \<Rightarrow> string list" where
  "split_path [] = [[]]"
| "split_path (c # cs) =
     (if c = CHR ''/'' then [] # split_path cs
      else (case split_path cs of [] \<Rightarrow> [[c]] | s # ss \<Rightarrow> (c # s) # ss))"

fun join_segs :: "string list \<Rightarrow> string" where
  "join_segs [] = []"
| "join_segs [s] = s"
| "join_segs (s # t # ts) = s @ CHR ''/'' # join_segs (t # ts)"

text \<open>
  One step of Node's \<open>normalizeString\<close>: \<open>res\<close> holds the segments kept so far,
  \<open>allowAboveRoot\<close> is true for a relative path.
\<close>

definition norm_step :: "bool \<Rightarrow> string list \<Rightarrow> string \<Rightarrow> string list" where
  "norm_step allowAboveRoot res seg =
     (if seg = [] \<or> seg = ''.'' then res
      else if seg = ''..'' then
        (if res \<noteq> [] \<and> last res \<noteq> ''..'' then butlast res
         else if allowAboveRoot then res @ [''..''] else res)
      else res @ [seg])"

definition normalizeString :: "bool \<Rightarrow> string list \<Rightarrow> string list" where
  "normalizeString allowAboveRoot segs = foldl (norm_step allowAboveRoot) [] segs"

definition isAbsolute :: "string \<Rightarrow> bool" where
  "isAbsolute p = (p \<noteq> [] \<and> hd p = CHR ''/'')"

definition normalize :: "string \<Rightarrow> string" where
  "normalize p =
     (if p = [] then ''.''
      else
        (let trailing = (last p = CHR ''/'');
             body = join_segs (normalizeString (\<not> isAbsolute p) (split_path p))
         in if body = [] then (if isAbsolute p then ''/'' else if trailing then ''./'' else ''.'')
            else (if isAbsolute p then ''/'' else []) @ body @ (if trailing then ''/'' else [])))"

text \<open>\<open>path.join(...args)\<close>: the non-empty arguments, joined with \<open>/\<close>, normalized.\<close>

definition path_join :: "string list \<Rightarrow> string" where
  "path_join args =
     (let joined = join_segs (filter (\<lambda>a. a \<noteq> []) args)
      in if joined = [] then ''.'' else normalize joined)"

text \<open>
  \<open>path.resolve(cwd, p)\<close> with an absolute working directory: \<open>p\<close> itself when it is
  absolute, \<open>cwd/p\<close> otherwise, normalized, without a trailing slash.
\<close>

definition path_resolve :: "string \<Rightarrow> string \<Rightarrow> string" where
  "path_resolve cwd p =
     CHR ''/'' # join_segs (normalizeString False
        (split_path (if isAbsolute p then p else if p = [] then cwd else cwd @ CHR ''/'' # p)))"

text \<open>
  \<open>path.relative(from, to)\<close> for two absolute paths: the common leading segments are
  dropped, one \<open>..\<close> stands for each segment left of \<open>from\<close>, the segments left of \<open>to\<close>
  follow.
\<close>

fun drop_common :: "string list \<Rightarrow> string list \<Rightarrow> string list \<times> string list" where
  "drop_common (x # xs) (y # ys) = (if x = y then drop_common xs ys else (x # xs, y # ys))"
| "drop_common xs ys = (xs, ys)"

definition path_relative :: "string \<Rightarrow> string \<Rightarrow> string" where
  "path_relative fromPath toPath =
     (let (fs, ts) = drop_common (normalizeString False (split_path fromPath))
                                 (normalizeString False (split_path toPath))
      in join_segs (replicate (length fs) ''..'' @ ts))"

text \<open>\<open>path.basename(p)\<close>: trailing slashes are ignored, the part after the last \<open>/\<close>.\<close>

definition basename :: "string \<Rightarrow> string" where
  "basename p = rev (takeWhile (\<lambda>c. c \<noteq> CHR ''/'') (dropWhile (\<lambda>c. c = CHR ''/'') (rev p)))"

text \<open>\<open>s.replace(/\.mmd$/, ".excalidraw")\<close>: the pattern matches at the end of the text only.\<close>

definition replace_mmd :: "string \<Rightarrow> string" where
  "replace_mmd s = (if endsWith s ''.mmd'' then take (length s - 4) s @ ''.excalidraw'' else s)"

section \<open>File system\<close>

text \<open>
  What \<open>fs.stat\<close> and \<open>fs.readFile\<close> see at a path: nothing (\<open>stat\<close> rejects), a
  directory, a regular file with its content, a regular file that cannot be read, or
  something else (a socket, a device).
\<close>

datatype fs_node = Directory | RegularFile string | UnreadableFile | OtherNode

type_synonym filesystem = "string \<Rightarrow> fs_node option"

section \<open>Output path of a single file (\<open>resolveOutputPath\<close>)\<close>

text \<open>
  \<open>outputPath\<close> is \<open>null\<close> (\<open>None\<close>) or a string; \<open>!outputPath\<close> holds for \<open>null\<close> and for
  the empty string. A rejected \<open>fs.stat\<close> is caught and ignored.
\<close>

definition resolveOutputPath :: "filesystem \<Rightarrow> string \<Rightarrow> string option \<Rightarrow> string" where
  "resolveOutputPath fs inputPath outputPath =
     (case outputPath of
        None \<Rightarrow> replace_mmd inputPath
      | Some out \<Rightarrow>
          if out = [] then replace_mmd inputPath
          else (case fs out of
                  Some Directory \<Rightarrow> path_join [out, replace_mmd (basename inputPath)]
                | _ \<Rightarrow> out))"

section \<open>The asset bridge server (\<open>createServer\<close>)\<close>

text \<open>
  \<open>s.replace(/^([/\\]*\.\.)+/, "")\<close>: at the start of the text, as many times as
  possible, any run of slashes and backslashes followed by two dots is removed. When the
  first repetition does not match, the text is returned unchanged.
\<close>

definition is_sep :: "char \<Rightarrow> bool" where
  "is_sep c = (c = CHR ''/'' \<or> c = CHR 0x5C)"

function strip_escapes :: "string \<Rightarrow> string" where
  "strip_escapes s =
     (let t = dropWhile is_sep s
      in if startsWith t ''..'' then strip_escapes (drop 2 t) else s)"
  by pat_completeness auto
termination
proof (relation "measure length")
  show "wf (measure length)" by simp
next
  fix s t :: string
  assume t: "t = dropWhile is_sep s" and p: "startsWith t ''..''"
  have "length t \<le> length s" using t by (simp add: length_dropWhile_le)
  moreover have "2 \<le> length t"
  proof (rule ccontr)
    assume "\<not> 2 \<le> length t"
    then have "length (take (length ''..'') t) < 2" by simp
    with p show False by (simp add: startsWith_def)
  qed
  ultimately show "(drop 2 t, s) \<in> measure length" by simp
qed

text \<open>
  The table \<open>moduleRoots\<close>, in insertion order: URL prefix and directory on disk.
  \<open>packageRoot\<close> is the directory above the script, an absolute path.
\<close>

definition moduleRoots :: "string \<Rightarrow> (string \<times> string) list" where
  "moduleRoots packageRoot =
     [(''/modules/mermaid-to-excalidraw/'',
         path_join [packageRoot, ''node_modules'', ''@excalidraw'', ''mermaid-to-excalidraw'', ''dist'']),
      (''/modules/mermaid/'', path_join [packageRoot, ''node_modules'', ''mermaid'', ''dist'']),
      (''/modules/nanoid/'', path_join [packageRoot, ''node_modules'', ''nanoid'']),
      (''/modules/markdown-to-text/'', path_join [packageRoot, ''vendor'', ''markdown-to-text'']),
      (''/excalidraw/'', path_join [packageRoot, ''node_modules'', ''@excalidraw'', ''excalidraw'', ''dist'']),
      (''/react/'', path_join [packageRoot, ''node_modules'', ''react'', ''umd'']),
      (''/react-dom/'', path_join [packageRoot, ''node_modules'', ''react-dom'', ''umd''])]"

text \<open>
  The file a request is answered from, for a route whose prefix the request path starts
  with: \<open>relativePath\<close>, \<open>safePath\<close> and \<open>filePath\<close> of the handler.
\<close>

definition safePath :: "string \<Rightarrow> string \<Rightarrow> string" where
  "safePath pfx pathname = strip_escapes (normalize (drop (length pfx) pathname))"

definition filePath :: "string \<Rightarrow> string \<Rightarrow> string \<Rightarrow> string" where
  "filePath pfx root pathname = path_join [root, safePath pfx pathname]"

text \<open>
  A response: the status code and what the body is. (The \<open>Content-Type\<close> header is left
  out.)
\<close>

datatype body = IndexPage | FileContent string | NotFound | ServerError

datatype response = Response nat body

text \<open>
  The loop over the routes: the first route whose prefix matches answers the request,
  with the file when \<open>stat\<close> finds a regular file and with 404 otherwise; a failing
  \<open>readFile\<close> is caught by the handler and answered with 500. No match gives 404.
\<close>

fun serve_routes :: "(string \<times> string) list \<Rightarrow> filesystem \<Rightarrow> string \<Rightarrow> response" where
  "serve_routes [] fs pathname = Response 404 NotFound"
| "serve_routes ((pfx, root) # routes) fs pathname =
     (if \<not> startsWith pathname pfx then serve_routes routes fs pathname
      else (case fs (filePath pfx root pathname) of
              Some (RegularFile content) \<Rightarrow> Response 200 (FileContent content)
            | Some UnreadableFile \<Rightarrow> Response 500 ServerError
            | _ \<Rightarrow> Response 404 NotFound))"

text \<open>
  The body of the handler after \<open>url.pathname\<close> has been read: the generated page for
  \<open>/\<close> and \<open>/index.html\<close>, the routes otherwise.
\<close>

definition handle_pathname :: "string \<Rightarrow> filesystem \<Rightarrow> string \<Rightarrow> response" where
  "handle_pathname packageRoot fs pathname =
     (if pathname = ''/'' \<or> pathname = ''/index.html'' then Response 200 IndexPage
      else serve_routes (moduleRoots packageRoot) fs pathname)"

text \<open>
  \<open>new URL(req.url ?? "/", "http://localhost").pathname\<close>, the first two lines of the
  handler. The URL class belongs to the platform; it is modelled here after the URL
  Standard's path state for an \<open>http\<close> URL, for the request targets HTTP clients send:
  a path that starts with one slash, with an optional query or fragment. The path ends at
  the first \<open>?\<close> or \<open>#\<close>; it is cut at every slash and backslash; a segment \<open>.\<close> (also
  written \<open>%2e\<close>) is dropped, a segment \<open>..\<close> (also written with \<open>%2e\<close> for either dot)
  removes the segment before it, and a dot segment at the very end leaves an empty last
  segment; in every other segment the characters of the path percent-encode set are
  percent-encoded (\<open>req.url\<close> holds one character per byte of the request line, so a
  character above \<open>0x7F\<close> is encoded as the two bytes of its UTF-8 form).
\<close>

fun split_where :: "(char \<Rightarrow> bool) \<Rightarrow> string \<Rightarrow> string list" where
  "split_where P [] = [[]]"
| "split_where P (c # cs) =
     (if P c then [] # split_where P cs
      else (case split_where P cs of [] \<Rightarrow> [[c]] | s # ss \<Rightarrow> (c # s) # ss))"

definition upper_hex :: "nat \<Rightarrow> char" where
  "upper_hex n = (if n mod 16 < 10 then char_of (48 + n mod 16) else char_of (55 + n mod 16))"

definition percent_byte :: "nat \<Rightarrow> string" where
  "percent_byte n = [CHR ''%'', upper_hex (n div 16), upper_hex n]"

definition in_path_encode_set :: "char \<Rightarrow> bool" where
  "in_path_encode_set c =
     ((of_char c :: nat) \<le> 32 \<or> (of_char c :: nat) \<ge> 127
      \<or> c = CHR 0x22 \<or> c = CHR 0x3C \<or> c = CHR 0x3E \<or> c = CHR 0x5E \<or> c = CHR 0x60
      \<or> c = CHR 0x7B \<or> c = CHR 0x7D)"

definition encode_char :: "char \<Rightarrow> string" where
  "encode_char c =
     (if \<not> in_path_encode_set c then [c]
      else if (of_char c :: nat) < 128 then percent_byte (of_char c)
      else percent_byte (192 + of_char c div 64) @ percent_byte (128 + of_char c mod 64))"

definition is_single_dot :: "string \<Rightarrow> bool" where
  "is_single_dot seg = (seg \<in> set [''.'', ''%2e'', ''%2E''])"

definition is_double_dot :: "string \<Rightarrow> bool" where
  "is_double_dot seg =
     (seg \<in> set [''..'', ''.%2e'', ''.%2E'', ''%2e.'', ''%2E.'',
                  ''%2e%2e'', ''%2e%2E'', ''%2E%2e'', ''%2E%2E''])"

text \<open>
  One segment in the path state: \<open>path\<close> is the list of segments so far, \<open>at_end\<close>
  tells whether the segment is the last one of the path.
\<close>

definition url_step :: "bool \<Rightarrow> string list \<Rightarrow> string \<Rightarrow> string list" where
  "url_step at_end path seg =
     (let buffer = concat (map encode_char seg)
      in if is_double_dot buffer then
           (if at_end then butlast path @ [[]] else butlast path)
         else if is_single_dot buffer then
           (if at_end then path @ [[]] else path)
         else path @ [buffer])"

fun url_segments :: "string list \<Rightarrow> string list \<Rightarrow> string list" where
  "url_segments path [] = path"
| "url_segments path [seg] = url_step True path seg"
| "url_segments path (seg # next # segs) = url_segments (url_step False path seg) (next # segs)"

text \<open>The pathname of the path that follows the first slash of the request target.\<close>

definition url_pathname :: "string \<Rightarrow> string" where
  "url_pathname rest =
     concat (map ((#) CHR ''/'')
       (url_segments [] (split_where is_sep (takeWhile (\<lambda>c. c \<noteq> CHR ''?'' \<and> c \<noteq> CHR ''#'') rest))))"

text \<open>
  \<open>url.pathname\<close> for a request target. The empty target is the base URL itself, with
  pathname \<open>/\<close>. A target that starts with two slashes names a host, and a target that
  does not start with a slash is a URL of its own or relative to the base path; these
  forms are left out of the model (\<open>None\<close>).
\<close>

definition request_pathname :: "string \<Rightarrow> string option" where
  "request_pathname url =
     (case url of
        [] \<Rightarrow> Some ''/''
      | c # rest \<Rightarrow>
          if c = CHR ''/'' \<and> (rest = [] \<or> \<not> is_sep (hd rest)) then Some (url_pathname rest)
          else None)"

text \<open>The request handler, from \<open>req.url\<close> to the response.\<close>

definition handle_request :: "string \<Rightarrow> filesystem \<Rightarrow> string \<Rightarrow> response option" where
  "handle_request packageRoot fs url =
     map_option (handle_pathname packageRoot fs) (request_pathname url)"

text \<open>
  A path lies inside a directory when it is the directory itself or continues it after a
  slash, and none of its segments is \<open>..\<close>.
\<close>

definition inside :: "string \<Rightarrow> string \<Rightarrow> bool" where
  "inside root p = ((p = root \<or> startsWith p (root @ ''/'')) \<and> ''..'' \<notin> set (split_path p))"

text \<open>
  A segment that \<open>path.normalize\<close> keeps as it is, and the absolute path made of such
  segments.
\<close>

definition normal_seg :: "string \<Rightarrow> bool" where
  "normal_seg s = (s \<noteq> [] \<and> CHR ''/'' \<notin> set s \<and> s \<noteq> ''.'' \<and> s \<noteq> ''..'')"

definition abs_path :: "string list \<Rightarrow> string" where
  "abs_path segs = CHR ''/'' # join_segs segs"

text \<open>The path \<open>dir/rel\<close> as text; below the root directory no second slash is written.\<close>

definition path_under :: "string \<Rightarrow> string \<Rightarrow> string" where
  "path_under dir rel = (if dir = ''/'' then dir @ rel else dir @ ''/'' @ rel)"

section \<open>Directory input (\<open>listMermaidFiles\<close> and the loop of \<open>run\<close>)\<close>

text \<open>
  What \<open>fs.readdir(dir, { withFileTypes: true })\<close> returns, with the content of every
  subdirectory: an entry is a regular file, a directory with its entries, or something
  else (\<open>isFile()\<close> and \<open>isDirectory()\<close> both false, as for a symbolic link).
\<close>

datatype dirent = FileEntry string | DirEntry string "dirent list" | OtherEntry string

fun entry_name :: "dirent \<Rightarrow> string" where
  "entry_name (FileEntry n) = n"
| "entry_name (DirEntry n es) = n"
| "entry_name (OtherEntry n) = n"

fun list_entry :: "string \<Rightarrow> dirent \<Rightarrow> string list"
  and listMermaidFiles :: "string \<Rightarrow> dirent list \<Rightarrow> string list" where
  "list_entry dir (DirEntry name sub) = listMermaidFiles (path_join [dir, name]) sub"
| "list_entry dir (FileEntry name) = (if endsWith name ''.mmd'' then [path_join [dir, name]] else [])"
| "list_entry dir (OtherEntry name) = []"
| "listMermaidFiles dir [] = []"
| "listMermaidFiles dir (e # es) = list_entry dir e @ listMermaidFiles dir es"

text \<open>
  A directory listing as a file system gives it: every name is a single path segment
  other than \<open>.\<close> and \<open>..\<close>, and no name occurs twice in one directory.
\<close>

fun wf_entry :: "dirent \<Rightarrow> bool" and wf_entries :: "dirent list \<Rightarrow> bool" where
  "wf_entry (DirEntry name sub) = (normal_seg name \<and> wf_entries sub \<and> distinct (map entry_name sub))"
| "wf_entry (FileEntry name) = normal_seg name"
| "wf_entry (OtherEntry name) = normal_seg name"
| "wf_entries [] = True"
| "wf_entries (e # es) = (wf_entry e \<and> wf_entries es)"

text \<open>The matching files of a listing, each as its segments below the listed directory.\<close>

fun rel_entry :: "dirent \<Rightarrow> string list list" and rel_files :: "dirent list \<Rightarrow> string list list" where
  "rel_entry (DirEntry name sub) = map ((#) name) (rel_files sub)"
| "rel_entry (FileEntry name) = (if endsWith name ''.mmd'' then [[name]] else [])"
| "rel_entry (OtherEntry name) = []"
| "rel_files [] = []"
| "rel_files (e # es) = rel_entry e @ rel_files es"

text \<open>
  \<open>targetPath\<close> of the loop body: the path of the file relative to the input directory,
  joined to the output directory (\<open>outputPath ?? inputPath\<close>), extension replaced.
\<close>

definition targetPath :: "string \<Rightarrow> string option \<Rightarrow> string \<Rightarrow> string" where
  "targetPath inputPath outputPath file =
     replace_mmd (path_join [case outputPath of None \<Rightarrow> inputPath | Some out \<Rightarrow> out,
                             path_relative inputPath file])"

text \<open>
  The loop over the files found. \<open>converts file\<close> tells whether \<open>convertMermaidFile\<close>
  succeeds for the file, in which case it has written the target; the first failure
  ends the loop and the run. The result is the list of files written, in order, and
  whether the loop came to its end.
\<close>

fun convert_each :: "(string \<Rightarrow> bool) \<Rightarrow> string \<Rightarrow> string option \<Rightarrow> string list \<Rightarrow> string list \<times> bool" where
  "convert_each converts inputPath outputPath [] = ([], True)"
| "convert_each converts inputPath outputPath (file # files) =
     (if converts file then
        (case convert_each converts inputPath outputPath files of
           (written, done) \<Rightarrow> (targetPath inputPath outputPath file # written, done))
      else ([], False))"

definition run_directory ::
    "(string \<Rightarrow> bool) \<Rightarrow> string \<Rightarrow> string option \<Rightarrow> dirent list \<Rightarrow> string list \<times> bool" where
  "run_directory converts inputPath outputPath tree =
     (let mermaidFiles = listMermaidFiles inputPath tree
      in if mermaidFiles = [] then ([], True)
         else convert_each converts inputPath outputPath mermaidFiles)"

text \<open>
  The shape \<open>path.normalize\<close> gives a path, as far as \<open>..\<close> segments go: after the first
  segment, they all come before every other segment; and when the second segment is
  \<open>..\<close>, the first is \<open>..\<close> as well, or empty.
\<close>

definition dots_first :: "string list \<Rightarrow> bool" where
  "dots_first segs = (''..'' \<notin> set (dropWhile (\<lambda>x. x = ''..'') segs))"

definition leading_escapes_only :: "string \<Rightarrow> bool" where
  "leading_escapes_only s =
     (case split_path s of
        [] \<Rightarrow> True
      | f # rest \<Rightarrow> dots_first rest \<and> (rest \<noteq> [] \<and> hd rest = ''..'' \<longrightarrow> f = [] \<or> f = ''..''))"

section \<open>The scene document (\<open>convertMermaidFile\<close>)\<close>

text \<open>
  JSON values as \<open>page.evaluate\<close> returns them and \<open>JSON.stringify\<close> prints them. A
  number is kept as the text JavaScript prints for it (the elements hold fractional
  coordinates); the members of an object keep their order.
\<close>

datatype json =
    JNull
  | JBool bool
  | JNumber string
  | JString string
  | JArray "json list"
  | JObject "(string \<times> json) list"

text \<open>\<open>files ?? {}\<close>: \<open>undefined\<close> (\<open>None\<close>) and \<open>null\<close> give the empty object.\<close>

definition or_empty_object :: "json option \<Rightarrow> json" where
  "or_empty_object files = (case files of None \<Rightarrow> JObject [] | Some JNull \<Rightarrow> JObject [] | Some v \<Rightarrow> v)"

text \<open>
  The value the function evaluated in the page returns for what the delegated library
  produced, and the object \<open>scene\<close> built from it.
\<close>

definition page_files :: "json option \<Rightarrow> json option" where
  "page_files lib_files = Some (or_empty_object lib_files)"

definition scene :: "json \<Rightarrow> json option \<Rightarrow> json" where
  "scene elements lib_files =
     JObject
       [(''type'', JString ''excalidraw''),
        (''version'', JNumber ''2''),
        (''source'', JString ''https://excalidraw.com''),
        (''elements'', elements),
        (''appState'', JObject [(''viewBackgroundColor'', JString ''#ffffff'')]),
        (''files'', or_empty_object (page_files lib_files))]"

text \<open>
  \<open>JSON.stringify(value, null, 2)\<close>. A string is quoted, with the quote, the backslash
  and the control characters escaped; an empty array or object is printed without a line
  break; otherwise every item stands on its own line, two spaces deeper than the
  brackets around it.
\<close>

definition hex_digit :: "nat \<Rightarrow> char" where
  "hex_digit n = (if n < 10 then char_of (48 + n) else char_of (87 + n))"

definition quote_char :: "char \<Rightarrow> string" where
  "quote_char c =
     (if c = CHR 0x22 then [CHR 0x5C, CHR 0x22]
      else if c = CHR 0x5C then [CHR 0x5C, CHR 0x5C]
      else if c = CHR 0x08 then [CHR 0x5C, CHR ''b'']
      else if c = CHR 0x0C then [CHR 0x5C, CHR ''f'']
      else if c = CHR 0x0A then [CHR 0x5C, CHR ''n'']
      else if c = CHR 0x0D then [CHR 0x5C, CHR ''r'']
      else if c = CHR 0x09 then [CHR 0x5C, CHR ''t'']
      else if (of_char c :: nat) < 32 then
        [CHR 0x5C, CHR ''u'', CHR ''0'', CHR ''0'', hex_digit (of_char c div 16), hex_digit (of_char c mod 16)]
      else [c])"

definition quote :: "string \<Rightarrow> string" where
  "quote s = CHR 0x22 # concat (map quote_char s) @ [CHR 0x22]"

definition indent :: "nat \<Rightarrow> string" where
  "indent depth = replicate (2 * depth) CHR '' ''"

text \<open>Items, one per line at the given depth, separated by commas.\<close>

fun lines_at :: "nat \<Rightarrow> string list \<Rightarrow> string" where
  "lines_at depth [] = []"
| "lines_at depth [x] = CHR 0x0A # indent depth @ x"
| "lines_at depth (x # y # ys) = CHR 0x0A # indent depth @ x @ '','' @ lines_at depth (y # ys)"

fun stringify :: "nat \<Rightarrow> json \<Rightarrow> string"
  and stringify_items :: "nat \<Rightarrow> json list \<Rightarrow> string list"
  and stringify_members :: "nat \<Rightarrow> (string \<times> json) list \<Rightarrow> string list" where
  "stringify depth JNull = ''null''"
| "stringify depth (JBool b) = (if b then ''true'' else ''false'')"
| "stringify depth (JNumber n) = n"
| "stringify depth (JString s) = quote s"
| "stringify depth (JArray items) =
     (if items = [] then ''[]''
      else ''['' @ lines_at (Suc depth) (stringify_items (Suc depth) items) @ CHR 0x0A # indent depth @ '']'')"
| "stringify depth (JObject members) =
     (if members = [] then ''{}''
      else ''{'' @ lines_at (Suc depth) (stringify_members (Suc depth) members) @ CHR 0x0A # indent depth @ ''}'')"
| "stringify_items depth [] = []"
| "stringify_items depth (x # xs) = stringify depth x # stringify_items depth xs"
| "stringify_members depth [] = []"
| "stringify_members depth ((k, v) # kvs) =
     (quote k @ '': '' @ stringify depth v) # stringify_members depth kvs"

text \<open>The text written to the output file: \<open>JSON.stringify(scene, null, 2)\<close>.\<close>

definition scene_text :: "json \<Rightarrow> json option \<Rightarrow> string" where
  "scene_text elements lib_files = stringify 0 (scene elements lib_files)"

text \<open>The member of an object with a given key.\<close>

definition member :: "string \<Rightarrow> json \<Rightarrow> json option" where
  "member k v = (case v of JObject members \<Rightarrow> map_of members k | _ \<Rightarrow> None)"

section \<open>Acquisition and release of the server, the browser and the page (\<open>run\<close>)\<close>

text \<open>
  The resources a run holds, and which of its steps fail. \<open>run\<close> awaits, in this order:
  \<open>fs.stat\<close> of the input, \<open>createServer\<close>, \<open>chromium.launch\<close>, \<open>browser.newPage\<close>; then,
  inside \<open>try\<close>, the navigation, the wait for the bundle and the conversions (here one
  step, \<open>work\<close>); then, inside \<open>finally\<close>, \<open>page.close\<close>, \<open>browser.close\<close> and
  \<open>server.close\<close>. A step that fails throws, and nothing after it is executed except a
  \<open>finally\<close> block already entered by its \<open>try\<close>.
\<close>

record resources =
  server_listening :: bool
  browser_alive :: bool
  page_open :: bool

record step_outcomes =
  stat_ok :: bool
  server_ok :: bool
  launch_ok :: bool
  newPage_ok :: bool
  work_ok :: bool
  page_close_ok :: bool
  browser_close_ok :: bool

record run_result =
  held :: resources
  finalizer_entered :: bool
  exit_code :: nat

definition no_resources :: resources where
  "no_resources = \<lparr> server_listening = False, browser_alive = False, page_open = False \<rparr>"

text \<open>
  The \<open>finally\<close> block: the three releases in order; a release that throws leaves the
  ones after it undone. The run is fulfilled only when the work and every release went
  through.
\<close>

definition finalizer :: "step_outcomes \<Rightarrow> resources \<Rightarrow> resources \<times> bool" where
  "finalizer oc r =
     (if \<not> page_close_ok oc then (r, False)
      else let r1 = r\<lparr>page_open := False\<rparr>
           in if \<not> browser_close_ok oc then (r1, False)
              else (r1\<lparr>browser_alive := False, server_listening := False\<rparr>, True))"

text \<open>
  \<open>run\<close>, followed by the handlers at the end of the script: \<open>process.exit(0)\<close> when the
  promise is fulfilled, \<open>process.exit(1)\<close> when it is rejected. The result records what
  was still held when \<open>run\<close> settled.
\<close>

definition run :: "string list \<Rightarrow> step_outcomes \<Rightarrow> run_result" where
  "run argv oc =
     (case parseArgs argv of
        HelpExit \<Rightarrow> \<lparr> held = no_resources, finalizer_entered = False, exit_code = 0 \<rparr>
      | Thrown printed message \<Rightarrow> \<lparr> held = no_resources, finalizer_entered = False, exit_code = 1 \<rparr>
      | Returned args \<Rightarrow>
          if \<not> stat_ok oc then \<lparr> held = no_resources, finalizer_entered = False, exit_code = 1 \<rparr>
          else if \<not> server_ok oc then \<lparr> held = no_resources, finalizer_entered = False, exit_code = 1 \<rparr>
          else let r1 = no_resources\<lparr>server_listening := True\<rparr>
               in if \<not> launch_ok oc then \<lparr> held = r1, finalizer_entered = False, exit_code = 1 \<rparr>
                  else let r2 = r1\<lparr>browser_alive := True\<rparr>
                       in if \<not> newPage_ok oc then \<lparr> held = r2, finalizer_entered = False, exit_code = 1 \<rparr>
                          else let r3 = r2\<lparr>page_open := True\<rparr>;
                                   (r4, released) = finalizer oc r3
                               in \<lparr> held = r4, finalizer_entered = True,
                                    exit_code = (if work_ok oc \<and> released then 0 else 1) \<rparr>)"

section \<open>Properties of the option parser\<close>

lemma classify_literals:
  "classify ''-h'' = KHelp" "classify ''--help'' = KHelp"
  "classify ''-o'' = KOutput" "classify ''--output'' = KOutput"
  "classify ''--font-size'' = KFontSize" "classify ''--curve'' = KCurve"
  "classify ''--max-edges'' = KMaxEdges" "classify ''--max-text-size'' = KMaxTextSize"
  by (simp_all add: classify_def)

lemma classify_examples:
  "classify ''in.mmd'' = KPositional" "classify ''a.mmd'' = KPositional"
  "classify ''-x'' = KPositional" "classify ''--bogus'' = KUnknown"
  by (simp_all add: classify_def startsWith_def)

lemma double_dash_literals:
  "startsWith ''--help'' ''--''" "startsWith ''--output'' ''--''"
  "startsWith ''--font-size'' ''--''" "startsWith ''--curve'' ''--''"
  "startsWith ''--max-edges'' ''--''" "startsWith ''--max-text-size'' ''--''"
  by (simp_all add: startsWith_def)

lemma classify_positional:
  assumes "\<not> startsWith arg ''--''" "arg \<noteq> ''-h''" "arg \<noteq> ''-o''"
  shows "classify arg = KPositional"
proof -
  have "arg \<noteq> ''--help''" "arg \<noteq> ''--output''" "arg \<noteq> ''--font-size''"
    "arg \<noteq> ''--curve''" "arg \<noteq> ''--max-edges''" "arg \<noteq> ''--max-text-size''"
    using assms(1) double_dash_literals by blast+
  with assms show ?thesis
    unfolding classify_def by (simp only: if_False simp_thms)
qed

lemma arg_loop_positional:
  "classify arg = KPositional \<Longrightarrow>
   arg_loop st (arg # rest) = arg_loop (st\<lparr>ps_positionals := ps_positionals st @ [arg]\<rparr>) rest"
  by simp

text \<open>
  Claim C9. A token that begins with a single dash and is neither \<open>-h\<close> nor \<open>-o\<close>, met
  by the loop in option position, is not rejected: the loop appends it to the positionals
  and goes on. Alone it becomes the input path; after one positional it becomes the
  output path.
\<close>

theorem single_dash_token_is_positional:
  assumes "startsWith arg ''-''" "\<not> startsWith arg ''--''" "arg \<noteq> ''-h''" "arg \<noteq> ''-o''"
  shows "arg_loop st (arg # rest) = arg_loop (st\<lparr>ps_positionals := ps_positionals st @ [arg]\<rparr>) rest
    \<and> parseArgs [arg] = Returned \<lparr> pa_input = arg, pa_output = None, pa_options = DEFAULTS \<rparr>
    \<and> parseArgs [''a.mmd'', arg] =
           Returned \<lparr> pa_input = ''a.mmd'', pa_output = Some arg, pa_options = DEFAULTS \<rparr>"
proof -
  have k: "classify arg = KPositional"
    using assms(2-4) by (rule classify_positional)
  have a: "arg_loop st (arg # rest) = arg_loop (st\<lparr>ps_positionals := ps_positionals st @ [arg]\<rparr>) rest"
    using k by simp
  have b: "parseArgs [arg] = Returned \<lparr> pa_input = arg, pa_output = None, pa_options = DEFAULTS \<rparr>"
    using k by (simp add: parseArgs_def initial_state_def final_output_def)
  have c: "parseArgs [''a.mmd'', arg] =
           Returned \<lparr> pa_input = ''a.mmd'', pa_output = Some arg, pa_options = DEFAULTS \<rparr>"
    using k by (simp add: parseArgs_def initial_state_def final_output_def classify_examples)
  from a b c show ?thesis by (intro conjI)
qed

theorem single_dash_token_is_positional_witness:
  "startsWith ''-x'' ''-'' \<and> \<not> startsWith ''-x'' ''--'' \<and> ''-x'' \<noteq> ''-h'' \<and> ''-x'' \<noteq> ''-o''
   \<and> parseArgs [''-x''] = Returned \<lparr> pa_input = ''-x'', pa_output = None, pa_options = DEFAULTS \<rparr>
   \<and> parseArgs [''a.mmd'', ''-x''] =
           Returned \<lparr> pa_input = ''a.mmd'', pa_output = Some ''-x'', pa_options = DEFAULTS \<rparr>"
proof -
  have h: "startsWith ''-x'' ''-''" "\<not> startsWith ''-x'' ''--''" "''-x'' \<noteq> ''-h''" "''-x'' \<noteq> ''-o''"
    by (simp_all add: startsWith_def)
  from single_dash_token_is_positional [OF h] h show ?thesis by blast
qed

lemma curve_step:
  "arg_loop st (''--curve'' # rest) =
     arg_loop (st\<lparr>ps_options := (ps_options st)\<lparr>curve := curve_or_default (next_arg rest)\<rparr>\<rparr>) (drop 1 rest)"
  by (simp add: classify_literals)

text \<open>
  Claim C10. The value of \<open>--curve\<close> is never checked against \<open>linear\<close>/\<open>basis\<close>: every
  non-empty value is stored as it is and parsing succeeds; when \<open>--curve\<close> is the last
  token, or its value is the empty string, the curve is set to the default \<open>linear\<close>
  and nothing fails.
\<close>

theorem curve_value_not_validated:
  "(v \<noteq> [] \<longrightarrow>
      arg_loop st (''--curve'' # v # rest) = arg_loop (st\<lparr>ps_options := (ps_options st)\<lparr>curve := v\<rparr>\<rparr>) rest
    \<and> parseArgs [''--curve'', v, ''in.mmd''] =
        Returned \<lparr> pa_input = ''in.mmd'', pa_output = None, pa_options = DEFAULTS\<lparr>curve := v\<rparr> \<rparr>)
   \<and> arg_loop st [''--curve''] = Inr (st\<lparr>ps_options := (ps_options st)\<lparr>curve := ''linear''\<rparr>\<rparr>)
   \<and> arg_loop st (''--curve'' # [] # rest) =
        arg_loop (st\<lparr>ps_options := (ps_options st)\<lparr>curve := ''linear''\<rparr>\<rparr>) rest
   \<and> parseArgs [''in.mmd'', ''--curve''] =
        Returned \<lparr> pa_input = ''in.mmd'', pa_output = None, pa_options = DEFAULTS\<lparr>curve := ''linear''\<rparr> \<rparr>
   \<and> parseArgs [''--curve'', [], ''in.mmd''] =
        Returned \<lparr> pa_input = ''in.mmd'', pa_output = None, pa_options = DEFAULTS\<lparr>curve := ''linear''\<rparr> \<rparr>"
proof -
  have d: "curve DEFAULTS = ''linear''" by (simp add: DEFAULTS_def)
  have a: "v \<noteq> [] \<Longrightarrow>
      arg_loop st (''--curve'' # v # rest) = arg_loop (st\<lparr>ps_options := (ps_options st)\<lparr>curve := v\<rparr>\<rparr>) rest"
    by (simp add: curve_step next_arg_def curve_or_default_def del: arg_loop.simps)
  have b: "v \<noteq> [] \<Longrightarrow> parseArgs [''--curve'', v, ''in.mmd''] =
        Returned \<lparr> pa_input = ''in.mmd'', pa_output = None, pa_options = DEFAULTS\<lparr>curve := v\<rparr> \<rparr>"
    by (simp add: parseArgs_def classify_literals next_arg_def curve_or_default_def classify_examples
        initial_state_def final_output_def)
  have c: "arg_loop st [''--curve''] = Inr (st\<lparr>ps_options := (ps_options st)\<lparr>curve := ''linear''\<rparr>\<rparr>)"
    by (simp add: classify_literals next_arg_def curve_or_default_def d)
  have e: "arg_loop st (''--curve'' # [] # rest) =
        arg_loop (st\<lparr>ps_options := (ps_options st)\<lparr>curve := ''linear''\<rparr>\<rparr>) rest"
    by (simp add: curve_step next_arg_def curve_or_default_def d del: arg_loop.simps)
  have f: "parseArgs [''in.mmd'', ''--curve''] =
        Returned \<lparr> pa_input = ''in.mmd'', pa_output = None, pa_options = DEFAULTS\<lparr>curve := ''linear''\<rparr> \<rparr>"
    by (simp add: parseArgs_def classify_literals next_arg_def curve_or_default_def classify_examples
        initial_state_def final_output_def d)
  have g: "parseArgs [''--curve'', [], ''in.mmd''] =
        Returned \<lparr> pa_input = ''in.mmd'', pa_output = None, pa_options = DEFAULTS\<lparr>curve := ''linear''\<rparr> \<rparr>"
    by (simp add: parseArgs_def classify_literals next_arg_def curve_or_default_def classify_examples
        initial_state_def final_output_def d)
  from a b c e f g show ?thesis by blast
qed

theorem curve_value_not_validated_witness:
  "''zigzag'' \<noteq> [] \<and> parseArgs [''--curve'', ''zigzag'', ''in.mmd''] =
        Returned \<lparr> pa_input = ''in.mmd'', pa_output = None, pa_options = DEFAULTS\<lparr>curve := ''zigzag''\<rparr> \<rparr>"
  using curve_value_not_validated [of "''zigzag''"] by simp


lemma classify_other:
  assumes "a \<noteq> ''-h''" "a \<noteq> ''--help''" "a \<noteq> ''-o''" "a \<noteq> ''--output''" "a \<noteq> ''--font-size''"
    "a \<noteq> ''--curve''" "a \<noteq> ''--max-edges''" "a \<noteq> ''--max-text-size''"
  shows "classify a = (if startsWith a ''--'' then KUnknown else KPositional)"
  using assms unfolding classify_def by (simp only: if_False simp_thms)

lemma single_dash_literals:
  "\<not> startsWith ''-h'' ''--''" "\<not> startsWith ''-o'' ''--''"
  by (simp_all add: startsWith_def)

lemma classify_unrecognised: "unrecognised_flag a \<Longrightarrow> classify a = KUnknown"
proof -
  assume u: "unrecognised_flag a"
  then have s: "startsWith a ''--''" by (simp add: unrecognised_flag_def)
  have p: "a \<noteq> ''-h''" "a \<noteq> ''-o''" using s single_dash_literals by blast+
  have q: "a \<noteq> ''--help''" "a \<noteq> ''--output''" "a \<noteq> ''--font-size''"
    "a \<noteq> ''--curve''" "a \<noteq> ''--max-edges''" "a \<noteq> ''--max-text-size''"
    using u by (simp_all only: unrecognised_flag_def simp_thms)
  have "classify a = (if startsWith a ''--'' then KUnknown else KPositional)"
    by (rule classify_other [OF p(1) q(1) p(2) q(2-6)])
  with s show ?thesis by simp
qed

lemma classify_takes_value:
  "takes_value a \<Longrightarrow> classify a \<in> {KOutput, KFontSize, KCurve, KMaxEdges, KMaxTextSize}"
  unfolding takes_value_def using classify_literals by (elim disjE) simp_all

lemma classify_plain:
  assumes "\<not> takes_value a" "\<not> is_help_flag a" "\<not> unrecognised_flag a"
  shows "classify a = KPositional"
proof -
  have n: "a \<noteq> ''-h''" "a \<noteq> ''--help''" "a \<noteq> ''-o''" "a \<noteq> ''--output''" "a \<noteq> ''--font-size''"
    "a \<noteq> ''--curve''" "a \<noteq> ''--max-edges''" "a \<noteq> ''--max-text-size''"
    using assms(1,2) by (simp_all only: takes_value_def is_help_flag_def de_Morgan_disj simp_thms)
  then have c: "classify a = (if startsWith a ''--'' then KUnknown else KPositional)"
    by (rule classify_other)
  have "\<not> startsWith a ''--''"
    using assms(3) n unfolding unrecognised_flag_def by (simp only: simp_thms)
  with c show ?thesis by simp
qed

lemma takes_value_not_special:
  "takes_value a \<Longrightarrow> \<not> is_help_flag a \<and> \<not> unrecognised_flag a"
  unfolding takes_value_def is_help_flag_def unrecognised_flag_def
  by (elim disjE) (simp_all add: startsWith_def)

lemma arg_loop_value_option:
  "takes_value a \<Longrightarrow> \<exists>st'. arg_loop st (a # v # rest) = arg_loop st' rest"
proof -
  assume "takes_value a"
  then have "classify a \<in> {KOutput, KFontSize, KCurve, KMaxEdges, KMaxTextSize}"
    by (rule classify_takes_value)
  then show ?thesis by auto
qed

lemma arg_loop_first_unknown:
  "i < length argv \<Longrightarrow> unrecognised_flag (argv ! i) \<Longrightarrow> \<not> value_marks argv ! i \<Longrightarrow>
   (\<forall>j<i. \<not> value_marks argv ! j \<longrightarrow> \<not> is_help_flag (argv ! j) \<and> \<not> unrecognised_flag (argv ! j)) \<Longrightarrow>
   arg_loop st argv = Inl (StopUnknown (argv ! i))"
proof (induction argv arbitrary: i st rule: value_marks.induct)
  case 1
  then show ?case by simp
next
  case (2 a)
  then have "i = 0" by simp
  with 2 show ?case by (simp add: classify_unrecognised)
next
  case (3 a v rest)
  show ?case
  proof (cases i)
    case 0
    with 3 show ?thesis by (simp add: classify_unrecognised)
  next
    case (Suc k)
    have a0: "\<not> is_help_flag a \<and> \<not> unrecognised_flag a"
      using "3.prems"(4) Suc by (auto split: if_splits)
    show ?thesis
    proof (cases "takes_value a")
      case True
      have "k \<noteq> 0" using "3.prems"(3) Suc True by (cases k) auto
      then obtain m where k: "k = Suc m" by (cases k) auto
      obtain st' where step: "arg_loop st (a # v # rest) = arg_loop st' rest"
        using arg_loop_value_option [OF True] by blast
      have "arg_loop st' rest = Inl (StopUnknown (rest ! m))"
      proof (rule "3.IH"(1) [OF True])
        show "m < length rest" using "3.prems"(1) Suc k by simp
        show "unrecognised_flag (rest ! m)" using "3.prems"(2) Suc k by simp
        show "\<not> value_marks rest ! m" using "3.prems"(3) Suc k True by simp
        show "\<forall>j<m. \<not> value_marks rest ! j \<longrightarrow> \<not> is_help_flag (rest ! j) \<and> \<not> unrecognised_flag (rest ! j)"
        proof (intro allI impI)
          fix j assume "j < m" "\<not> value_marks rest ! j"
          then have "Suc (Suc j) < i" "\<not> value_marks (a # v # rest) ! Suc (Suc j)"
            using Suc k True by simp_all
          with "3.prems"(4) have "\<not> is_help_flag ((a # v # rest) ! Suc (Suc j)) \<and> \<not> unrecognised_flag ((a # v # rest) ! Suc (Suc j))"
            by blast
          then show "\<not> is_help_flag (rest ! j) \<and> \<not> unrecognised_flag (rest ! j)" by simp
        qed
      qed
      with step show ?thesis using Suc k by simp
    next
      case False
      have pos: "classify a = KPositional"
        using False a0 by (simp add: classify_plain)
      have "arg_loop (st\<lparr>ps_positionals := ps_positionals st @ [a]\<rparr>) (v # rest) = Inl (StopUnknown ((v # rest) ! k))"
      proof (rule "3.IH"(2) [OF False])
        show "k < length (v # rest)" using "3.prems"(1) Suc by simp
        show "unrecognised_flag ((v # rest) ! k)" using "3.prems"(2) Suc by simp
        show "\<not> value_marks (v # rest) ! k" using "3.prems"(3) Suc False by simp
        show "\<forall>j<k. \<not> value_marks (v # rest) ! j \<longrightarrow> \<not> is_help_flag ((v # rest) ! j) \<and> \<not> unrecognised_flag ((v # rest) ! j)"
        proof (intro allI impI)
          fix j assume "j < k" "\<not> value_marks (v # rest) ! j"
          then have "Suc j < i" "\<not> value_marks (a # v # rest) ! Suc j"
            using Suc False by simp_all
          with "3.prems"(4) have "\<not> is_help_flag ((a # v # rest) ! Suc j) \<and> \<not> unrecognised_flag ((a # v # rest) ! Suc j)"
            by blast
          then show "\<not> is_help_flag ((v # rest) ! j) \<and> \<not> unrecognised_flag ((v # rest) ! j)" by simp
        qed
      qed
      then show ?thesis using pos Suc by simp
    qed
  qed
qed

text \<open>
  Claim C7, as stated: whenever an argument sequence holds an unrecognised token starting
  with \<open>--\<close> that is not consumed as an option value, parsing throws an error naming
  that token. It fails for \<open>--help --bogus\<close>: the help flag comes first, the usage is
  printed and the process exits with code 0.
\<close>

theorem unknown_option_counterexample:
  "1 < length [''--help'', ''--bogus'']
   \<and> unrecognised_flag ([''--help'', ''--bogus''] ! 1)
   \<and> \<not> value_marks [''--help'', ''--bogus''] ! 1
   \<and> parseArgs [''--help'', ''--bogus''] = HelpExit
   \<and> parseArgs [''--help'', ''--bogus''] \<noteq> Thrown False ''Unknown option: --bogus''"
proof -
  have "unrecognised_flag ''--bogus''"
    by (simp add: unrecognised_flag_def startsWith_def)
  moreover have "value_marks [''--help'', ''--bogus''] = [False, False]"
    by (simp add: takes_value_def)
  moreover have "parseArgs [''--help'', ''--bogus''] = HelpExit"
    by (simp add: parseArgs_def classify_literals)
  ultimately show ?thesis by simp
qed

text \<open>
  Claim C7, amended: an unrecognised token starting with \<open>--\<close> that is not consumed as
  an option value makes parsing throw \<open>Unknown option: <token>\<close>, provided no help flag
  and no other such token stands in option position before it (the loop stops at the
  first of them).
\<close>

theorem first_unknown_option_rejected:
  assumes "i < length argv" "unrecognised_flag (argv ! i)" "\<not> value_marks argv ! i"
    and "\<forall>j<i. \<not> value_marks argv ! j \<longrightarrow> \<not> is_help_flag (argv ! j) \<and> \<not> unrecognised_flag (argv ! j)"
  shows "parseArgs argv = Thrown False (''Unknown option: '' @ argv ! i)"
  using arg_loop_first_unknown [OF assms] by (simp add: parseArgs_def)

theorem first_unknown_option_rejected_witness:
  "parseArgs [''--curve'', ''--help'', ''a.mmd'', ''--bogus'', ''--help''] = Thrown False ''Unknown option: --bogus''"
proof -
  let ?argv = "[''--curve'', ''--help'', ''a.mmd'', ''--bogus'', ''--help'']"
  have m: "value_marks ?argv = [False, True, False, False, False]"
    by (simp add: takes_value_def)
  have 1: "3 < length ?argv" by simp
  have 2: "unrecognised_flag (?argv ! 3)" by (simp add: unrecognised_flag_def startsWith_def)
  have 3: "\<not> value_marks ?argv ! 3" by (simp only: m) simp
  have 4: "\<forall>j<3. \<not> value_marks ?argv ! j \<longrightarrow> \<not> is_help_flag (?argv ! j) \<and> \<not> unrecognised_flag (?argv ! j)"
  proof (intro allI impI)
    fix j :: nat assume "j < 3" and nv: "\<not> value_marks ?argv ! j"
    then consider "j = 0" | "j = 1" | "j = 2" by linarith
    then show "\<not> is_help_flag (?argv ! j) \<and> \<not> unrecognised_flag (?argv ! j)"
    proof cases
      case 1 then show ?thesis by (simp add: is_help_flag_def unrecognised_flag_def)
    next
      case 2 with nv m show ?thesis by simp
    next
      case 3 then show ?thesis by (simp add: is_help_flag_def unrecognised_flag_def startsWith_def)
    qed
  qed
  from first_unknown_option_rejected [OF 1 2 3 4] show ?thesis by simp
qed





















section \<open>Properties of the rendering configuration\<close>





section \<open>Facts about paths\<close>

subsection \<open>Splitting and joining\<close>

lemma split_path_nonempty: "split_path s \<noteq> []"
  by (induction s) (auto split: list.splits)

lemma split_path_no_slash: "x \<in> set (split_path s) \<Longrightarrow> CHR ''/'' \<notin> set x"
  by (induction s arbitrary: x) (auto split: list.splits if_splits)

lemma split_path_slash: "split_path (CHR ''/'' # s) = [] # split_path s"
  by simp

lemma split_path_char:
  "c \<noteq> CHR ''/'' \<Longrightarrow> split_path (c # s) = (c # hd (split_path s)) # tl (split_path s)"
  using split_path_nonempty [of s] by (cases "split_path s") auto

lemma split_path_noslash: "CHR ''/'' \<notin> set s \<Longrightarrow> split_path s = [s]"
  by (induction s) auto

lemma split_path_append:
  "split_path (a @ CHR ''/'' # b) = split_path a @ split_path b"
proof (induction a)
  case Nil
  then show ?case using split_path_nonempty [of b] by (cases "split_path b") auto
next
  case (Cons c a)
  show ?case
  proof (cases "c = CHR ''/''")
    case True
    with Cons show ?thesis by simp
  next
    case False
    obtain x xs where x: "split_path a = x # xs"
      using split_path_nonempty [of a] by (cases "split_path a") auto
    with Cons False show ?thesis by simp
  qed
qed

lemma split_path_noslash_append:
  "CHR ''/'' \<notin> set a \<Longrightarrow> split_path (a @ b) = (a @ hd (split_path b)) # tl (split_path b)"
proof (induction a)
  case Nil
  then show ?case using split_path_nonempty [of b] by simp
next
  case (Cons c a)
  then show ?case by (auto simp: split_path_char)
qed

lemma join_split: "join_segs (split_path s) = s"
proof (induction s)
  case Nil
  then show ?case by simp
next
  case (Cons c s)
  obtain x xs where x: "split_path s = x # xs"
    using split_path_nonempty [of s] by (cases "split_path s") auto
  show ?case
  proof (cases "c = CHR ''/''")
    case True
    with Cons x show ?thesis by simp
  next
    case False
    with Cons x show ?thesis by (cases xs) auto
  qed
qed

lemma join_segs_Cons: "ss \<noteq> [] \<Longrightarrow> join_segs (s # ss) = s @ CHR ''/'' # join_segs ss"
  by (cases ss) auto

lemma join_segs_append:
  "xs \<noteq> [] \<Longrightarrow> ys \<noteq> [] \<Longrightarrow> join_segs (xs @ ys) = join_segs xs @ CHR ''/'' # join_segs ys"
proof (induction xs rule: join_segs.induct)
  case 1
  then show ?case by simp
next
  case (2 s)
  then show ?case by (simp add: join_segs_Cons)
next
  case (3 s t ts)
  then show ?case by simp
qed

lemma split_join:
  "segs \<noteq> [] \<Longrightarrow> \<forall>x\<in>set segs. CHR ''/'' \<notin> set x \<Longrightarrow> split_path (join_segs segs) = segs"
proof (induction segs rule: join_segs.induct)
  case 1
  then show ?case by simp
next
  case (2 s)
  then show ?case by (simp add: split_path_noslash)
next
  case (3 s t ts)
  then have "split_path (join_segs (t # ts)) = t # ts" by simp
  moreover have "split_path s = [s]" using 3 by (simp add: split_path_noslash)
  ultimately show ?case by (simp add: split_path_append)
qed

lemma join_segs_eq_Nil: "\<forall>x\<in>set segs. x \<noteq> [] \<Longrightarrow> join_segs segs = [] \<longleftrightarrow> segs = []"
  by (induction segs rule: join_segs.induct) auto

lemma last_join_segs_aux:
  "segs \<noteq> [] \<Longrightarrow> last segs \<noteq> [] \<Longrightarrow>
   join_segs segs \<noteq> [] \<and> last (join_segs segs) = last (last segs)"
proof (induction segs rule: join_segs.induct)
  case 1
  then show ?case by simp
next
  case (2 s)
  then show ?case by simp
next
  case (3 s t ts)
  then have "join_segs (t # ts) \<noteq> [] \<and> last (join_segs (t # ts)) = last (last (t # ts))"
    by simp
  then show ?case by simp
qed

lemma last_join_segs:
  "segs \<noteq> [] \<Longrightarrow> last segs \<noteq> [] \<Longrightarrow> last (join_segs segs) = last (last segs)"
  by (simp add: last_join_segs_aux)

subsection \<open>Normal segments\<close>

lemma normal_seg_simps:
  "normal_seg s \<Longrightarrow> s \<noteq> []" "normal_seg s \<Longrightarrow> s \<noteq> ''.''" "normal_seg s \<Longrightarrow> s \<noteq> ''..''"
  "normal_seg s \<Longrightarrow> CHR ''/'' \<notin> set s"
  by (simp_all add: normal_seg_def)

lemma norm_step_normal: "normal_seg s \<Longrightarrow> norm_step b res s = res @ [s]"
  by (simp add: norm_step_def normal_seg_def)

lemma foldl_norm_step_normal:
  "list_all normal_seg segs \<Longrightarrow> foldl (norm_step b) res segs = res @ segs"
  by (induction segs arbitrary: res) (simp_all add: norm_step_normal)

lemma norm_step_False_keeps_normal:
  "list_all normal_seg res \<Longrightarrow> CHR ''/'' \<notin> set s \<Longrightarrow> list_all normal_seg (norm_step False res s)"
proof -
  assume r: "list_all normal_seg res" and s: "CHR ''/'' \<notin> set s"
  have b: "list_all normal_seg (butlast res)"
    using r by (simp add: list_all_iff) (meson in_set_butlastD)
  show ?thesis
    using r s b by (simp add: norm_step_def normal_seg_def)
qed

lemma foldl_norm_False_normal:
  "list_all normal_seg res \<Longrightarrow> \<forall>x\<in>set segs. CHR ''/'' \<notin> set x \<Longrightarrow>
   list_all normal_seg (foldl (norm_step False) res segs)"
  by (induction segs arbitrary: res) (simp_all add: norm_step_False_keeps_normal)

lemma normalizeString_False_normal: "list_all normal_seg (normalizeString False (split_path p))"
  unfolding normalizeString_def
  by (rule foldl_norm_False_normal) (simp_all add: split_path_no_slash)

lemma norm_step_empty: "norm_step b res [] = res"
  by (simp add: norm_step_def)

lemma split_abs_path:
  "list_all normal_seg segs \<Longrightarrow>
   split_path (abs_path segs) = (if segs = [] then [[], []] else [] # segs)"
  by (simp add: abs_path_def split_join list_all_iff normal_seg_def)

lemma normalizeString_abs_path:
  "list_all normal_seg segs \<Longrightarrow> normalizeString False (split_path (abs_path segs) @ ys) =
     foldl (norm_step False) segs ys"
  by (simp add: split_abs_path normalizeString_def norm_step_empty foldl_norm_step_normal)

lemma isAbsolute_abs_path: "isAbsolute (abs_path segs)" "isAbsolute (abs_path segs @ x)"
  by (simp_all add: isAbsolute_def abs_path_def)

lemma path_resolve_abs_path:
  "\<exists>segs. path_resolve cwd p = abs_path segs \<and> list_all normal_seg segs"
  unfolding path_resolve_def abs_path_def
  using normalizeString_False_normal by blast


lemma path_join_two:
  "a \<noteq> [] \<Longrightarrow> x \<noteq> [] \<Longrightarrow> path_join [a, x] = normalize (a @ CHR ''/'' # x)"
  by (simp add: path_join_def)

lemma path_join_abs_path:
  assumes "list_all normal_seg rs" "x \<noteq> []"
  shows "path_join [abs_path rs, x] =
     (let segs = foldl (norm_step False) rs (split_path x)
      in if segs = [] then ''/'' else abs_path segs @ (if last x = CHR ''/'' then ''/'' else []))"
proof -
  let ?p = "abs_path rs @ CHR ''/'' # x"
  let ?segs = "foldl (norm_step False) rs (split_path x)"
  have j: "path_join [abs_path rs, x] = normalize ?p"
    using assms(2) by (simp add: path_join_two abs_path_def)
  have n: "normalizeString False (split_path ?p) = ?segs"
    using assms(1) by (simp add: split_path_append normalizeString_abs_path)
  have nn: "list_all normal_seg ?segs"
    by (rule foldl_norm_False_normal [OF assms(1)]) (simp add: split_path_no_slash)
  then have e: "join_segs ?segs = [] \<longleftrightarrow> ?segs = []"
    by (intro join_segs_eq_Nil) (auto simp: list_all_iff normal_seg_def)
  have a: "isAbsolute ?p" by (simp add: isAbsolute_abs_path)
  have l: "last ?p = last x" using assms(2) by simp
  have ne: "?p \<noteq> []" by simp
  have "normalize ?p =
      (if join_segs ?segs = [] then ''/''
       else ''/'' @ join_segs ?segs @ (if last x = CHR ''/'' then ''/'' else []))"
    using a ne l by (simp add: normalize_def Let_def n)
  then show ?thesis
    unfolding j Let_def using e by (simp add: abs_path_def)
qed

lemma path_join_abs_path_segs:
  assumes "list_all normal_seg rs" "list_all normal_seg ns" "ns \<noteq> []"
  shows "path_join [abs_path rs, join_segs ns] = abs_path (rs @ ns)"
proof -
  have ns: "\<forall>x\<in>set ns. CHR ''/'' \<notin> set x" "\<forall>x\<in>set ns. x \<noteq> []"
    using assms(2) by (auto simp: list_all_iff normal_seg_def)
  have x: "join_segs ns \<noteq> []" using ns(2) assms(3) by (simp add: join_segs_eq_Nil)
  have s: "split_path (join_segs ns) = ns" using assms(3) ns(1) by (rule split_join)
  have f: "foldl (norm_step False) rs ns = rs @ ns"
    using assms(2) by (rule foldl_norm_step_normal)
  have "last ns \<noteq> []" using assms(3) ns(2) by simp
  then have "last (join_segs ns) = last (last ns)" using assms(3) by (simp add: last_join_segs)
  moreover have "CHR ''/'' \<notin> set (last ns)" using assms(3) ns(1) by simp
  ultimately have l: "last (join_segs ns) \<noteq> CHR ''/''"
    using \<open>last ns \<noteq> []\<close> by (metis last_in_set)
  show ?thesis
    using assms(3) by (simp add: path_join_abs_path [OF assms(1) x] s f l Let_def)
qed

lemma abs_path_root: "list_all normal_seg rs \<Longrightarrow> abs_path rs = ''/'' \<longleftrightarrow> rs = []"
proof -
  assume "list_all normal_seg rs"
  then have "join_segs rs = [] \<longleftrightarrow> rs = []"
    by (intro join_segs_eq_Nil) (auto simp: list_all_iff normal_seg_def)
  then show ?thesis by (simp add: abs_path_def)
qed

lemma path_under_abs_path:
  assumes "list_all normal_seg rs" "ns \<noteq> []"
  shows "path_under (abs_path rs) (join_segs ns) = abs_path (rs @ ns)"
proof (cases "rs = []")
  case True
  then show ?thesis by (simp add: path_under_def abs_path_def)
next
  case False
  then have "abs_path rs \<noteq> ''/''" using abs_path_root [OF assms(1)] by simp
  then show ?thesis
    using False assms(2) by (simp add: path_under_def abs_path_def join_segs_append)
qed

lemma endsWith_append: "endsWith s e \<longleftrightarrow> (\<exists>q. s = q @ e)"
proof
  assume "endsWith s e"
  then have "s = take (length s - length e) s @ e"
    by (metis append_take_drop_id endsWith_def)
  then show "\<exists>q. s = q @ e" by blast
next
  assume "\<exists>q. s = q @ e"
  then show "endsWith s e" by (auto simp: endsWith_def)
qed

lemma replace_mmd_append: "replace_mmd (q @ ''.mmd'') = q @ ''.excalidraw''"
  by (simp add: replace_mmd_def endsWith_def)

lemma basename_mmd:
  assumes "endsWith p ''.mmd''"
  shows "\<exists>b. basename p = b @ ''.mmd'' \<and> CHR ''/'' \<notin> set b"
proof -
  obtain q where q: "p = q @ ''.mmd''" using assms endsWith_append by blast
  have "rev p = ''dmm.'' @ rev q" by (simp add: q)
  then have "basename p = rev (takeWhile (\<lambda>c. c \<noteq> CHR ''/'') (rev q)) @ ''.mmd''"
    by (simp add: basename_def)
  moreover have "CHR ''/'' \<notin> set (rev (takeWhile (\<lambda>c. c \<noteq> CHR ''/'') (rev q)))"
    by (auto dest: set_takeWhileD)
  ultimately show ?thesis by blast
qed

lemma normal_seg_excalidraw: "CHR ''/'' \<notin> set b \<Longrightarrow> normal_seg (b @ ''.excalidraw'')"
  by (cases b; cases "tl b") (auto simp: normal_seg_def)

section \<open>Output path of a single file\<close>

lemma replace_mmd_endsWith:
  "endsWith s ''.mmd'' \<Longrightarrow> replace_mmd s = take (length s - 4) s @ ''.excalidraw''"
  by (simp add: replace_mmd_def)

text \<open>
  Claim C4. For an input path ending in \<open>.mmd\<close>, \<open>resolveOutputPath\<close> has three cases:
  without an output path the result is the input path with \<open>.mmd\<close> replaced by
  \<open>.excalidraw\<close>; with an output path that is an existing directory it is the base name
  of the input, extension replaced, joined to that directory (for the resolved path
  \<open>run\<close> passes: the directory, a slash, the name); with any other output path it is
  the output path itself. (\<open>run\<close> passes \<open>null\<close> or a non-empty resolved path.)
\<close>

theorem resolveOutputPath_three_cases:
  assumes "endsWith inputPath ''.mmd''"
  shows "resolveOutputPath fs inputPath None = take (length inputPath - 4) inputPath @ ''.excalidraw''
    \<and> (out \<noteq> [] \<and> fs out = Some Directory \<longrightarrow>
         resolveOutputPath fs inputPath (Some out) =
           path_join [out, take (length (basename inputPath) - 4) (basename inputPath) @ ''.excalidraw''])
    \<and> (fs (path_resolve cwd out) = Some Directory \<longrightarrow>
         resolveOutputPath fs inputPath (Some (path_resolve cwd out)) =
           path_under (path_resolve cwd out)
             (take (length (basename inputPath) - 4) (basename inputPath) @ ''.excalidraw''))
    \<and> (out \<noteq> [] \<and> fs out \<noteq> Some Directory \<longrightarrow> resolveOutputPath fs inputPath (Some out) = out)"
proof -
  obtain b where b: "basename inputPath = b @ ''.mmd''" "CHR ''/'' \<notin> set b"
    using basename_mmd [OF assms] by blast
  have eb: "endsWith (basename inputPath) ''.mmd''"
    using b(1) endsWith_append by blast
  have sw: "replace_mmd (basename inputPath) =
      take (length (basename inputPath) - 4) (basename inputPath) @ ''.excalidraw''"
    using eb by (rule replace_mmd_endsWith)
  have sw': "replace_mmd (basename inputPath) = b @ ''.excalidraw''"
    by (simp add: b(1) replace_mmd_append)
  have 1: "resolveOutputPath fs inputPath None = take (length inputPath - 4) inputPath @ ''.excalidraw''"
    using assms by (simp add: resolveOutputPath_def replace_mmd_endsWith)
  have 2: "out \<noteq> [] \<and> fs out = Some Directory \<longrightarrow>
         resolveOutputPath fs inputPath (Some out) =
           path_join [out, take (length (basename inputPath) - 4) (basename inputPath) @ ''.excalidraw'']"
    by (simp add: resolveOutputPath_def sw)
  have 3: "fs (path_resolve cwd out) = Some Directory \<longrightarrow>
         resolveOutputPath fs inputPath (Some (path_resolve cwd out)) =
           path_under (path_resolve cwd out)
             (take (length (basename inputPath) - 4) (basename inputPath) @ ''.excalidraw'')"
  proof
    assume d: "fs (path_resolve cwd out) = Some Directory"
    obtain rs where rs: "path_resolve cwd out = abs_path rs" "list_all normal_seg rs"
      using path_resolve_abs_path by blast
    let ?n = "b @ ''.excalidraw''"
    have n: "list_all normal_seg [?n]" using b(2) by (simp add: normal_seg_excalidraw)
    have ne: "abs_path rs \<noteq> []" by (simp add: abs_path_def)
    have "resolveOutputPath fs inputPath (Some (abs_path rs)) = path_join [abs_path rs, join_segs [?n]]"
      using d ne by (simp add: resolveOutputPath_def rs(1) sw')
    also have "\<dots> = abs_path (rs @ [?n])"
      by (rule path_join_abs_path_segs [OF rs(2) n]) simp
    also have "\<dots> = path_under (abs_path rs) (join_segs [?n])"
      by (rule path_under_abs_path [OF rs(2), symmetric]) simp
    finally show "resolveOutputPath fs inputPath (Some (path_resolve cwd out)) =
           path_under (path_resolve cwd out)
             (take (length (basename inputPath) - 4) (basename inputPath) @ ''.excalidraw'')"
      unfolding rs(1) sw [symmetric] sw' by simp
  qed
  have 4: "out \<noteq> [] \<and> fs out \<noteq> Some Directory \<longrightarrow> resolveOutputPath fs inputPath (Some out) = out"
    by (auto simp: resolveOutputPath_def split: option.splits fs_node.splits)
  from 1 2 3 4 show ?thesis by (intro conjI)
qed

lemma resolve_example: "path_resolve ''/w'' ''out'' = ''/w/out''"
  by code_simp

lemma basename_example: "basename ''/w/docs/a.mmd'' = ''a.mmd''"
  by code_simp

theorem resolveOutputPath_three_cases_witness:
  "endsWith ''/w/docs/a.mmd'' ''.mmd''
   \<and> resolveOutputPath (\<lambda>p. if p = ''/w/out'' then Some Directory else None) ''/w/docs/a.mmd'' None
       = ''/w/docs/a.excalidraw''
   \<and> resolveOutputPath (\<lambda>p. if p = ''/w/out'' then Some Directory else None) ''/w/docs/a.mmd''
       (Some ''/w/out'') = ''/w/out/a.excalidraw''
   \<and> resolveOutputPath (\<lambda>p. if p = ''/w/out'' then Some Directory else None) ''/w/docs/a.mmd''
       (Some ''/w/b.json'') = ''/w/b.json''"
proof -
  let ?fs = "\<lambda>p. if p = ''/w/out'' then Some Directory else None :: fs_node option"
  have h: "endsWith ''/w/docs/a.mmd'' ''.mmd''" by (simp add: endsWith_def)
  note t1 = resolveOutputPath_three_cases [OF h, of ?fs "''out''" "''/w''"]
  note t2 = resolveOutputPath_three_cases [OF h, of ?fs "''/w/b.json''" "''/w''"]
  have a: "resolveOutputPath ?fs ''/w/docs/a.mmd'' None = ''/w/docs/a.excalidraw''"
    using t1 by simp
  have b: "resolveOutputPath ?fs ''/w/docs/a.mmd'' (Some ''/w/out'') = ''/w/out/a.excalidraw''"
    using t1 by (simp add: resolve_example basename_example path_under_def)
  have c: "resolveOutputPath ?fs ''/w/docs/a.mmd'' (Some ''/w/b.json'') = ''/w/b.json''"
    using t2 by simp
  from h a b c show ?thesis by (intro conjI)
qed

section \<open>Directory input\<close>

lemma normalizeString_abs_path_id:
  "list_all normal_seg segs \<Longrightarrow> normalizeString False (split_path (abs_path segs)) = segs"
  using normalizeString_abs_path [of segs "[]"] by simp

lemma abs_path_inject:
  "list_all normal_seg xs \<Longrightarrow> list_all normal_seg ys \<Longrightarrow> abs_path xs = abs_path ys \<Longrightarrow> xs = ys"
  by (metis normalizeString_abs_path_id)

lemma drop_common_Nil: "drop_common [] ns = ([], ns)"
  by (cases ns) simp_all

lemma drop_common_append: "drop_common rs (rs @ ns) = ([], ns)"
  by (induction rs) (simp_all add: drop_common_Nil)

lemma path_relative_abs_path:
  assumes "list_all normal_seg rs" "list_all normal_seg ns"
  shows "path_relative (abs_path rs) (abs_path (rs @ ns)) = join_segs ns"
proof -
  have "list_all normal_seg (rs @ ns)" using assms by simp
  then show ?thesis
    using assms(1) by (simp add: path_relative_def normalizeString_abs_path_id drop_common_append)
qed

lemma join_segs_snoc:
  "join_segs (xs @ [s]) = (if xs = [] then s else join_segs xs @ CHR ''/'' # s)"
  by (induction xs rule: join_segs.induct) auto

lemma join_segs_snoc_append: "join_segs (xs @ [q @ e]) = join_segs (xs @ [q]) @ e"
  by (simp add: join_segs_snoc)

lemma normal_seg_mmd: "normal_seg (q @ ''.mmd'') \<Longrightarrow> normal_seg (q @ ''.excalidraw'')"
  by (rule normal_seg_excalidraw) (simp add: normal_seg_def)

text \<open>One matching file, given by its segments below the input directory.\<close>

lemma per_file:
  assumes rs: "list_all normal_seg rs" and os: "list_all normal_seg os"
    and ns: "list_all normal_seg (xs @ [q @ ''.mmd''])"
  defines "ns \<equiv> xs @ [q @ ''.mmd'']" and "ns' \<equiv> xs @ [q @ ''.excalidraw'']"
  defines "f \<equiv> abs_path (rs @ ns)"
  shows "path_relative (abs_path rs) f = join_segs ns"
    and "f = path_under (abs_path rs) (join_segs ns)"
    and "endsWith (join_segs ns) ''.mmd''"
    and "endsWith f ''.mmd''"
    and "replace_mmd (join_segs ns) = join_segs ns'"
    and "replace_mmd f = abs_path (rs @ ns')"
    and "targetPath (abs_path rs) None f = replace_mmd f"
    and "targetPath (abs_path rs) None f = path_under (abs_path rs) (join_segs ns')"
    and "path_relative (abs_path rs) (targetPath (abs_path rs) None f) = join_segs ns'"
    and "targetPath (abs_path rs) (Some (abs_path os)) f = path_under (abs_path os) (join_segs ns')"
proof -
  have nsn: "list_all normal_seg ns" using ns by (simp add: ns_def)
  have nsn': "list_all normal_seg ns'" using ns by (simp add: ns'_def normal_seg_mmd)
  have ne: "ns \<noteq> []" "ns' \<noteq> []" by (simp_all add: ns_def ns'_def)
  show rel: "path_relative (abs_path rs) f = join_segs ns"
    unfolding f_def by (rule path_relative_abs_path [OF rs nsn])
  show "f = path_under (abs_path rs) (join_segs ns)"
    unfolding f_def by (rule path_under_abs_path [OF rs ne(1), symmetric])
  have j: "join_segs ns = join_segs (xs @ [q]) @ ''.mmd''"
    unfolding ns_def by (rule join_segs_snoc_append)
  have j': "join_segs ns' = join_segs (xs @ [q]) @ ''.excalidraw''"
    unfolding ns'_def by (rule join_segs_snoc_append)
  show "endsWith (join_segs ns) ''.mmd''" using j endsWith_append by blast
  have fj: "f = (CHR ''/'' # join_segs ((rs @ xs) @ [q])) @ ''.mmd''"
    unfolding f_def ns_def abs_path_def using join_segs_snoc_append [of "rs @ xs" q "''.mmd''"] by simp
  show "endsWith f ''.mmd''" using fj endsWith_append by blast
  show "replace_mmd (join_segs ns) = join_segs ns'"
    unfolding j j' by (rule replace_mmd_append)
  have "replace_mmd f = (CHR ''/'' # join_segs ((rs @ xs) @ [q])) @ ''.excalidraw''"
    unfolding fj by (rule replace_mmd_append)
  also have "\<dots> = abs_path (rs @ ns')"
    unfolding ns'_def abs_path_def using join_segs_snoc_append [of "rs @ xs" q "''.excalidraw''"] by simp
  finally show rf: "replace_mmd f = abs_path (rs @ ns')" .
  have pj: "path_join [abs_path rs, join_segs ns] = f"
    unfolding f_def by (rule path_join_abs_path_segs [OF rs nsn ne(1)])
  show t: "targetPath (abs_path rs) None f = replace_mmd f"
    by (simp add: targetPath_def rel pj)
  show "targetPath (abs_path rs) None f = path_under (abs_path rs) (join_segs ns')"
    unfolding t rf by (rule path_under_abs_path [OF rs ne(2), symmetric])
  show "path_relative (abs_path rs) (targetPath (abs_path rs) None f) = join_segs ns'"
    unfolding t rf by (rule path_relative_abs_path [OF rs nsn'])
  have pjo: "path_join [abs_path os, join_segs ns] = abs_path (os @ ns)"
    by (rule path_join_abs_path_segs [OF os nsn ne(1)])
  have "abs_path (os @ ns) = (CHR ''/'' # join_segs ((os @ xs) @ [q])) @ ''.mmd''"
    unfolding ns_def abs_path_def using join_segs_snoc_append [of "os @ xs" q "''.mmd''"] by simp
  then have "replace_mmd (abs_path (os @ ns)) = (CHR ''/'' # join_segs ((os @ xs) @ [q])) @ ''.excalidraw''"
    by (simp only: replace_mmd_append)
  also have "\<dots> = abs_path (os @ ns')"
    unfolding ns'_def abs_path_def using join_segs_snoc_append [of "os @ xs" q "''.excalidraw''"] by simp
  finally have "replace_mmd (abs_path (os @ ns)) = abs_path (os @ ns')" .
  then show "targetPath (abs_path rs) (Some (abs_path os)) f = path_under (abs_path os) (join_segs ns')"
    by (simp add: targetPath_def rel pjo path_under_abs_path [OF os ne(2)])
qed


lemma path_join_name:
  "list_all normal_seg rs \<Longrightarrow> normal_seg name \<Longrightarrow> path_join [abs_path rs, name] = abs_path (rs @ [name])"
  using path_join_abs_path_segs [of rs "[name]"] by simp

lemma listing_segments:
  "wf_entry e \<Longrightarrow> (\<forall>rs. list_all normal_seg rs \<longrightarrow>
      list_entry (abs_path rs) e = map (\<lambda>ns. abs_path (rs @ ns)) (rel_entry e))"
  "wf_entries es \<Longrightarrow> (\<forall>rs. list_all normal_seg rs \<longrightarrow>
      listMermaidFiles (abs_path rs) es = map (\<lambda>ns. abs_path (rs @ ns)) (rel_files es))"
proof (induction e and es rule: rel_entry_rel_files.induct)
  case (1 name sub)
  show ?case
  proof (intro allI impI)
    fix rs assume rs: "list_all normal_seg rs"
    have n: "normal_seg name" and w: "wf_entries sub" using "1.prems" by simp_all
    have rs': "list_all normal_seg (rs @ [name])" using rs n by simp
    have "list_entry (abs_path rs) (DirEntry name sub) = listMermaidFiles (abs_path (rs @ [name])) sub"
      by (simp add: path_join_name [OF rs n])
    also have "\<dots> = map (\<lambda>ns. abs_path ((rs @ [name]) @ ns)) (rel_files sub)"
      using "1.IH" [OF w] rs' by blast
    finally show "list_entry (abs_path rs) (DirEntry name sub) =
        map (\<lambda>ns. abs_path (rs @ ns)) (rel_entry (DirEntry name sub))"
      by (simp add: comp_def)
  qed
next
  case (2 name)
  then show ?case by (simp add: path_join_name)
next
  case (3 name)
  then show ?case by simp
next
  case 4
  then show ?case by simp
next
  case (5 e es)
  then show ?case by simp
qed

lemma rel_segments:
  "wf_entry e \<Longrightarrow> (\<forall>ns\<in>set (rel_entry e). list_all normal_seg ns \<and> ns \<noteq> []
      \<and> hd ns = entry_name e \<and> endsWith (last ns) ''.mmd'')"
  "wf_entries es \<Longrightarrow> (\<forall>ns\<in>set (rel_files es). list_all normal_seg ns \<and> ns \<noteq> []
      \<and> hd ns \<in> set (map entry_name es) \<and> endsWith (last ns) ''.mmd'')"
proof (induction e and es rule: rel_entry_rel_files.induct)
  case (1 name sub)
  have n: "normal_seg name" and w: "wf_entries sub" using "1.prems" by simp_all
  show ?case
  proof
    fix ns assume "ns \<in> set (rel_entry (DirEntry name sub))"
    then obtain ms where ms: "ms \<in> set (rel_files sub)" "ns = name # ms" by auto
    from "1.IH" [OF w] ms(1) have m: "list_all normal_seg ms" "ms \<noteq> []" "endsWith (last ms) ''.mmd''"
      by blast+
    show "list_all normal_seg ns \<and> ns \<noteq> [] \<and> hd ns = entry_name (DirEntry name sub)
        \<and> endsWith (last ns) ''.mmd''"
      using m n by (simp add: ms(2))
  qed
next
  case (2 name)
  then show ?case by (simp del: endsWith_def)
next
  case (3 name)
  then show ?case by simp
next
  case 4
  then show ?case by simp
next
  case (5 e es)
  have we: "wf_entry e" and wes: "wf_entries es" using "5.prems" by simp_all
  show ?case
  proof
    fix ns assume "ns \<in> set (rel_files (e # es))"
    then consider "ns \<in> set (rel_entry e)" | "ns \<in> set (rel_files es)" by auto
    then show "list_all normal_seg ns \<and> ns \<noteq> [] \<and> hd ns \<in> set (map entry_name (e # es))
        \<and> endsWith (last ns) ''.mmd''"
    proof cases
      case 1
      with "5.IH"(1) [OF we] show ?thesis by simp
    next
      case 2
      with "5.IH"(2) [OF wes] show ?thesis by simp
    qed
  qed
qed

lemma rel_distinct:
  "wf_entry e \<Longrightarrow> distinct (rel_entry e)"
  "wf_entries es \<Longrightarrow> distinct (map entry_name es) \<Longrightarrow> distinct (rel_files es)"
proof (induction e and es rule: rel_entry_rel_files.induct)
  case (1 name sub)
  then have "distinct (rel_files sub)" by simp
  then show ?case by (simp add: distinct_map)
next
  case (2 name)
  then show ?case by simp
next
  case (3 name)
  then show ?case by simp
next
  case 4
  then show ?case by simp
next
  case (5 e es)
  have we: "wf_entry e" and wes: "wf_entries es" using "5.prems"(1) by simp_all
  have d: "distinct (rel_entry e)" "distinct (rel_files es)"
    using 5 by simp_all
  have "set (rel_entry e) \<inter> set (rel_files es) = {}"
  proof (rule ccontr)
    assume "set (rel_entry e) \<inter> set (rel_files es) \<noteq> {}"
    then obtain ns where a: "ns \<in> set (rel_entry e)" and b: "ns \<in> set (rel_files es)" by blast
    from rel_segments(1) [OF we] a have "hd ns = entry_name e" by blast
    moreover from rel_segments(2) [OF wes] b have "hd ns \<in> set (map entry_name es)" by blast
    ultimately show False using "5.prems"(2) by simp
  qed
  with d show ?case by simp
qed


lemma convert_each_all:
  "\<forall>f\<in>set files. converts f \<Longrightarrow>
   convert_each converts inputPath outputPath files = (map (targetPath inputPath outputPath) files, True)"
  by (induction files) simp_all

lemma run_directory_all:
  "\<forall>f\<in>set (listMermaidFiles inputPath tree). converts f \<Longrightarrow>
   run_directory converts inputPath outputPath tree =
     (map (targetPath inputPath outputPath) (listMermaidFiles inputPath tree), True)"
  by (simp add: run_directory_def Let_def convert_each_all)

lemma replace_mmd_inject:
  assumes "endsWith a ''.mmd''" "endsWith b ''.mmd''" and e: "replace_mmd a = replace_mmd b"
  shows "a = b"
proof -
  from assms(1) obtain p where p: "a = p @ ''.mmd''" unfolding endsWith_append ..
  from assms(2) obtain q where q: "b = q @ ''.mmd''" unfolding endsWith_append ..
  note pq = p q
  have "p @ ''.excalidraw'' = q @ ''.excalidraw''"
    using e unfolding pq by (simp only: replace_mmd_append)
  then have "p = q" by (simp only: append_same_eq)
  then show ?thesis by (simp only: pq)
qed

lemma split_last: "ns \<noteq> [] \<Longrightarrow> endsWith (last ns) e \<Longrightarrow> \<exists>xs q. ns = xs @ [q @ e]"
proof -
  assume "ns \<noteq> []" "endsWith (last ns) e"
  then obtain q where "last ns = q @ e" using endsWith_append by blast
  with \<open>ns \<noteq> []\<close> have "ns = butlast ns @ [q @ e]" by (metis append_butlast_last_id)
  then show ?thesis by blast
qed


lemma listed_file:
  assumes "wf_entries tree" "list_all normal_seg rs" "f \<in> set (listMermaidFiles (abs_path rs) tree)"
  shows "\<exists>xs q. list_all normal_seg (xs @ [q @ ''.mmd'']) \<and> f = abs_path (rs @ xs @ [q @ ''.mmd''])"
proof -
  from listing_segments(2) [OF assms(1)] assms(2,3)
  obtain ns where ns: "ns \<in> set (rel_files tree)" "f = abs_path (rs @ ns)" by auto
  from rel_segments(2) [OF assms(1)] ns(1)
  have p: "list_all normal_seg ns" "ns \<noteq> []" "endsWith (last ns) ''.mmd''" by blast+
  from split_last [OF p(2,3)] obtain xs q where "ns = xs @ [q @ ''.mmd'']" by blast
  with p(1) ns(2) show ?thesis by blast
qed

lemma listed_distinct:
  assumes "wf_entries tree" "distinct (map entry_name tree)" "list_all normal_seg rs"
  shows "distinct (listMermaidFiles (abs_path rs) tree)"
proof -
  have l: "listMermaidFiles (abs_path rs) tree = map (\<lambda>ns. abs_path (rs @ ns)) (rel_files tree)"
    using listing_segments(2) [OF assms(1)] assms(3) by blast
  have "inj_on (\<lambda>ns. abs_path (rs @ ns)) (set (rel_files tree))"
  proof (rule inj_onI)
    fix a b assume a: "a \<in> set (rel_files tree)" and b: "b \<in> set (rel_files tree)"
      and e: "abs_path (rs @ a) = abs_path (rs @ b)"
    from rel_segments(2) [OF assms(1)] a b have "list_all normal_seg a" "list_all normal_seg b"
      by blast+
    then have "list_all normal_seg (rs @ a)" "list_all normal_seg (rs @ b)" using assms(3) by simp_all
    from abs_path_inject [OF this e] show "a = b" by simp
  qed
  then show ?thesis
    unfolding l using rel_distinct(2) [OF assms(1,2)] by (simp add: distinct_map)
qed

text \<open>
  Claim C5. For a directory input (a resolved path) whose listing is well formed, when
  every conversion succeeds: without an output path the files written are exactly the
  files found with \<open>.mmd\<close> replaced by \<open>.excalidraw\<close>, as many as were found and all
  different; every file found ends in \<open>.mmd\<close> and lies under the input directory at its
  relative path, and its output lies under the input directory at that relative path
  with the extension replaced. With an output directory, every output is that relative
  path, extension replaced, under the output directory.
\<close>

theorem directory_outputs:
  assumes "wf_entries tree" "distinct (map entry_name tree)"
    and "inputPath = path_resolve cwd input" and "outDir = path_resolve cwd out"
    and "\<forall>f\<in>set (listMermaidFiles inputPath tree). converts f"
  shows "run_directory converts inputPath None tree =
        (map replace_mmd (listMermaidFiles inputPath tree), True)
    \<and> length (fst (run_directory converts inputPath None tree)) = length (listMermaidFiles inputPath tree)
    \<and> distinct (fst (run_directory converts inputPath None tree))
    \<and> (\<forall>f\<in>set (listMermaidFiles inputPath tree).
          endsWith f ''.mmd'' \<and> f = path_under inputPath (path_relative inputPath f)
          \<and> replace_mmd f = path_under inputPath (replace_mmd (path_relative inputPath f))
          \<and> path_relative inputPath (replace_mmd f) = replace_mmd (path_relative inputPath f))
    \<and> run_directory converts inputPath (Some outDir) tree =
        (map (\<lambda>f. path_under outDir (replace_mmd (path_relative inputPath f)))
           (listMermaidFiles inputPath tree), True)"
proof -
  obtain rs where rs: "inputPath = abs_path rs" "list_all normal_seg rs"
    using path_resolve_abs_path assms(3) by blast
  obtain os where os: "outDir = abs_path os" "list_all normal_seg os"
    using path_resolve_abs_path assms(4) by blast
  let ?files = "listMermaidFiles inputPath tree"
  have pf: "endsWith f ''.mmd'' \<and> f = path_under inputPath (path_relative inputPath f)
      \<and> replace_mmd f = path_under inputPath (replace_mmd (path_relative inputPath f))
      \<and> path_relative inputPath (replace_mmd f) = replace_mmd (path_relative inputPath f)
      \<and> targetPath inputPath None f = replace_mmd f
      \<and> targetPath inputPath (Some outDir) f = path_under outDir (replace_mmd (path_relative inputPath f))"
    if "f \<in> set ?files" for f
  proof -
    from listed_file [OF assms(1) rs(2)] that rs(1)
    obtain xs q where n: "list_all normal_seg (xs @ [q @ ''.mmd''])"
      and f: "f = abs_path (rs @ xs @ [q @ ''.mmd''])" by blast
    note p = per_file [OF rs(2) os(2) n, folded f]
    show ?thesis
      unfolding rs(1) os(1) using p by (simp only: simp_thms)
  qed
  have 1: "run_directory converts inputPath None tree = (map replace_mmd ?files, True)"
    using pf by (simp add: run_directory_all [OF assms(5)])
  have d: "distinct ?files"
    unfolding rs(1) by (rule listed_distinct [OF assms(1,2) rs(2)])
  have "inj_on replace_mmd (set ?files)"
    by (rule inj_onI) (use pf replace_mmd_inject in blast)
  with d have 3: "distinct (map replace_mmd ?files)" by (simp add: distinct_map)
  have 5: "run_directory converts inputPath (Some outDir) tree =
        (map (\<lambda>f. path_under outDir (replace_mmd (path_relative inputPath f))) ?files, True)"
    using pf by (simp add: run_directory_all [OF assms(5)])
  have 2: "length (fst (run_directory converts inputPath None tree)) = length ?files"
    by (simp add: 1)
  have d3: "distinct (fst (run_directory converts inputPath None tree))"
    using 3 by (simp add: 1)
  have 4: "\<forall>f\<in>set ?files.
          endsWith f ''.mmd'' \<and> f = path_under inputPath (path_relative inputPath f)
          \<and> replace_mmd f = path_under inputPath (replace_mmd (path_relative inputPath f))
          \<and> path_relative inputPath (replace_mmd f) = replace_mmd (path_relative inputPath f)"
    using pf by blast
  from 1 2 d3 4 5 show ?thesis by (intro conjI)
qed


lemma example_listing:
  "listMermaidFiles ''/w/docs'' [FileEntry ''a.mmd'', DirEntry ''sub'' [FileEntry ''b.mmd'', FileEntry ''c.txt'']]
     = [''/w/docs/a.mmd'', ''/w/docs/sub/b.mmd'']"
  by code_simp

lemma example_wf:
  "wf_entries [FileEntry ''a.mmd'', DirEntry ''sub'' [FileEntry ''b.mmd'', FileEntry ''c.txt'']]"
  by code_simp

lemma example_resolve:
  "path_resolve ''/w'' ''docs'' = ''/w/docs''" "path_resolve ''/w'' ''out'' = ''/w/out''"
  by code_simp+

lemma example_targets:
  "map replace_mmd [''/w/docs/a.mmd'', ''/w/docs/sub/b.mmd''] =
     [''/w/docs/a.excalidraw'', ''/w/docs/sub/b.excalidraw'']"
  "map (\<lambda>f. path_under ''/w/out'' (replace_mmd (path_relative ''/w/docs'' f)))
       [''/w/docs/a.mmd'', ''/w/docs/sub/b.mmd''] =
     [''/w/out/a.excalidraw'', ''/w/out/sub/b.excalidraw'']"
  by code_simp+

theorem directory_outputs_witness:
  "run_directory (\<lambda>f. True) ''/w/docs'' None
       [FileEntry ''a.mmd'', DirEntry ''sub'' [FileEntry ''b.mmd'', FileEntry ''c.txt'']]
     = ([''/w/docs/a.excalidraw'', ''/w/docs/sub/b.excalidraw''], True)
   \<and> run_directory (\<lambda>f. True) ''/w/docs'' (Some ''/w/out'')
       [FileEntry ''a.mmd'', DirEntry ''sub'' [FileEntry ''b.mmd'', FileEntry ''c.txt'']]
     = ([''/w/out/a.excalidraw'', ''/w/out/sub/b.excalidraw''], True)"
proof -
  let ?tree = "[FileEntry ''a.mmd'', DirEntry ''sub'' [FileEntry ''b.mmd'', FileEntry ''c.txt'']]"
  have h1: "wf_entries ?tree" by (rule example_wf)
  have h2: "distinct (map entry_name ?tree)" by simp
  have h3: "''/w/docs'' = path_resolve ''/w'' ''docs''" "''/w/out'' = path_resolve ''/w'' ''out''"
    by (simp_all only: example_resolve)
  have h5: "\<forall>f\<in>set (listMermaidFiles ''/w/docs'' ?tree). (\<lambda>f. True) f" by simp
  from directory_outputs [OF h1 h2 h3 h5] show ?thesis
    by (simp only: example_listing example_targets simp_thms)
qed

section \<open>The asset bridge server never leaves its roots\<close>

declare strip_escapes.simps [simp del]

lemma startsWith_dots: "startsWith t ''..'' \<longleftrightarrow> (\<exists>u. t = CHR ''.'' # CHR ''.'' # u)"
  by (cases t; cases "tl t") (auto simp: startsWith_def)

lemma is_sep_simps: "is_sep CHR ''/''" "\<not> is_sep CHR ''.''"
  by (simp_all add: is_sep_def)

lemma dots_first_simps:
  "dots_first (''..'' # r) = dots_first r"
  "''..'' \<notin> set r \<Longrightarrow> dots_first r"
  "dots_first []"
  by (auto simp: dots_first_def dest: set_dropWhileD)

lemma dots_first_no_lead: "dots_first r \<Longrightarrow> r = [] \<or> hd r \<noteq> ''..'' \<Longrightarrow> ''..'' \<notin> set r"
  by (cases r) (auto simp: dots_first_def)

lemma split_tail_after_dots:
  "(\<forall>x\<in>set r. CHR ''/'' \<notin> set x) \<Longrightarrow>
   split_path (if r = [] then [] else CHR ''/'' # join_segs r) = (if r = [] then [[]] else [] # r)"
  by (simp add: split_join)

lemma split_rest_no_slash: "split_path s = f # rest \<Longrightarrow> \<forall>x\<in>set rest. CHR ''/'' \<notin> set x"
  by (metis list.set_intros(2) split_path_no_slash)

lemma string_of_split: "split_path s = f # rest \<Longrightarrow> s = f @ (if rest = [] then [] else CHR ''/'' # join_segs rest)"
  using join_split [of s] by (cases rest) (auto simp: join_segs_Cons)

lemma tl_split_char: "c \<noteq> CHR ''/'' \<Longrightarrow> tl (split_path (c # s)) = tl (split_path s)"
  by (simp add: split_path_char del: split_path.simps)

lemma tl_split_dropWhile_sep:
  "set (tl (split_path (dropWhile is_sep s))) \<subseteq> set (tl (split_path s))"
proof (induction s)
  case Nil
  then show ?case by simp
next
  case (Cons c s)
  show ?case
  proof (cases "is_sep c")
    case False
    then show ?thesis by simp
  next
    case True
    have "set (tl (split_path s)) \<subseteq> set (tl (split_path (c # s)))"
    proof (cases "c = CHR ''/''")
      case True
      then show ?thesis using split_path_nonempty [of s] by (cases "split_path s") auto
    next
      case False
      then show ?thesis by (simp add: tl_split_char del: split_path.simps)
    qed
    with Cons True show ?thesis by auto
  qed
qed

lemma tl_split_drop_dots:
  "tl (split_path (CHR ''.'' # CHR ''.'' # u)) = tl (split_path u)"
  by (simp add: tl_split_char del: split_path.simps)


text \<open>A path whose second segment is \<open>..\<close>: what one round of stripping leaves.\<close>

lemma strip_round_leading:
  assumes sp: "split_path s = f # ''..'' # r" and f: "f = [] \<or> f = ''..''"
  shows "startsWith (dropWhile is_sep s) ''..''"
    and "\<exists>r'. split_path (drop 2 (dropWhile is_sep s)) = [] # r' \<and> (r' = [[]] \<or> r' = ''..'' # r \<or> r' = r)
          \<and> (f = [] \<longrightarrow> r' = [[]] \<and> r = [] \<or> r' = r)"
proof -
  have ns: "\<forall>x\<in>set (''..'' # r). CHR ''/'' \<notin> set x" using sp by (rule split_rest_no_slash)
  then have nr: "\<forall>x\<in>set r. CHR ''/'' \<notin> set x" by simp
  have s: "s = f @ CHR ''/'' # ''..'' @ (if r = [] then [] else CHR ''/'' # join_segs r)"
    using string_of_split [OF sp] by (cases r) (simp_all add: join_segs_Cons)
  from f show "startsWith (dropWhile is_sep s) ''..''"
  proof
    assume "f = []"
    then show ?thesis by (subst s) (simp add: is_sep_simps startsWith_dots)
  next
    assume "f = ''..''"
    then show ?thesis by (subst s) (simp add: is_sep_simps startsWith_dots)
  qed
  from f show "\<exists>r'. split_path (drop 2 (dropWhile is_sep s)) = [] # r' \<and> (r' = [[]] \<or> r' = ''..'' # r \<or> r' = r)
          \<and> (f = [] \<longrightarrow> r' = [[]] \<and> r = [] \<or> r' = r)"
  proof
    assume e: "f = []"
    have "drop 2 (dropWhile is_sep s) = (if r = [] then [] else CHR ''/'' # join_segs r)"
      by (subst s) (simp add: e is_sep_simps)
    then have "split_path (drop 2 (dropWhile is_sep s)) = (if r = [] then [[]] else [] # r)"
      using split_tail_after_dots [OF nr] by simp
    then show ?thesis using e by auto
  next
    assume e: "f = ''..''"
    have "drop 2 (dropWhile is_sep s) = CHR ''/'' # join_segs (''..'' # r)"
      by (subst s) (simp add: e is_sep_simps join_segs_Cons)
    then have "split_path (drop 2 (dropWhile is_sep s)) = [] # ''..'' # r"
      using split_join [of "''..'' # r"] ns by simp
    then show ?thesis using e by auto
  qed
qed

lemma strip_round_keeps_shape:
  assumes j: "leading_escapes_only s" and st: "startsWith (dropWhile is_sep s) ''..''"
  shows "leading_escapes_only (drop 2 (dropWhile is_sep s))"
proof -
  obtain f rest where sp: "split_path s = f # rest"
    using split_path_nonempty [of s] by (cases "split_path s") auto
  from j sp have d: "dots_first rest" and c: "rest \<noteq> [] \<and> hd rest = ''..'' \<longrightarrow> f = [] \<or> f = ''..''"
    by (simp_all add: leading_escapes_only_def)
  show ?thesis
  proof (cases "rest \<noteq> [] \<and> hd rest = ''..''")
    case True
    then obtain r where r: "rest = ''..'' # r" by (cases rest) auto
    from c True have f: "f = [] \<or> f = ''..''" by blast
    from strip_round_leading(2) [OF sp [unfolded r] f]
    obtain r' where r': "split_path (drop 2 (dropWhile is_sep s)) = [] # r'"
      "r' = [[]] \<or> r' = ''..'' # r \<or> r' = r" by blast
    have "dots_first r" using d by (simp add: r dots_first_simps)
    then have "dots_first r'" using r'(2) by (auto simp: dots_first_simps)
    then show ?thesis by (simp add: leading_escapes_only_def r'(1))
  next
    case False
    then have n: "''..'' \<notin> set rest" using d dots_first_no_lead by blast
    obtain u where u: "dropWhile is_sep s = CHR ''.'' # CHR ''.'' # u"
      using st startsWith_dots by blast
    have "tl (split_path (drop 2 (dropWhile is_sep s))) = tl (split_path (dropWhile is_sep s))"
      by (simp add: u tl_split_drop_dots del: split_path.simps)
    then have "set (tl (split_path (drop 2 (dropWhile is_sep s)))) \<subseteq> set rest"
      using tl_split_dropWhile_sep [of s] sp by simp
    with n have m: "''..'' \<notin> set (tl (split_path (drop 2 (dropWhile is_sep s))))" by blast
    obtain g rest' where g: "split_path (drop 2 (dropWhile is_sep s)) = g # rest'"
      using split_path_nonempty [of "drop 2 (dropWhile is_sep s)"]
      by (cases "split_path (drop 2 (dropWhile is_sep s))") auto
    from m g have "''..'' \<notin> set rest'" by simp
    then have "dots_first rest'" "\<not> (rest' \<noteq> [] \<and> hd rest' = ''..'')"
      by (cases rest'; auto simp: dots_first_simps)+
    then show ?thesis unfolding leading_escapes_only_def g by auto
  qed
qed

lemma strip_done_no_escape:
  assumes j: "leading_escapes_only s" and st: "\<not> startsWith (dropWhile is_sep s) ''..''"
  shows "''..'' \<notin> set (split_path s)"
proof -
  obtain f rest where sp: "split_path s = f # rest"
    using split_path_nonempty [of s] by (cases "split_path s") auto
  from j sp have d: "dots_first rest" and c: "rest \<noteq> [] \<and> hd rest = ''..'' \<longrightarrow> f = [] \<or> f = ''..''"
    by (simp_all add: leading_escapes_only_def)
  have l: "\<not> (rest \<noteq> [] \<and> hd rest = ''..'')"
  proof
    assume a: "rest \<noteq> [] \<and> hd rest = ''..''"
    then obtain r where r: "rest = ''..'' # r" by (cases rest) auto
    from c a have f: "f = [] \<or> f = ''..''" by blast
    from strip_round_leading(1) [OF sp [unfolded r] f] st show False by simp
  qed
  then have n: "''..'' \<notin> set rest" using d dots_first_no_lead by blast
  have "f \<noteq> ''..''"
  proof
    assume e: "f = ''..''"
    have "s = f @ (if rest = [] then [] else CHR ''/'' # join_segs rest)"
      using sp by (rule string_of_split)
    then have "dropWhile is_sep s = s" "startsWith s ''..''"
      by (simp_all add: e is_sep_simps startsWith_dots)
    with st show False by simp
  qed
  with n show ?thesis by (simp add: sp)
qed

lemma strip_escapes_no_escape:
  "leading_escapes_only s \<Longrightarrow> ''..'' \<notin> set (split_path (strip_escapes s))"
proof (induction s rule: strip_escapes.induct)
  case (1 s)
  show ?case
  proof (cases "startsWith (dropWhile is_sep s) ''..''")
    case True
    have "leading_escapes_only (drop 2 (dropWhile is_sep s))"
      using "1.prems" True by (rule strip_round_keeps_shape)
    then have "''..'' \<notin> set (split_path (strip_escapes (drop 2 (dropWhile is_sep s))))"
      using "1.IH" True by simp
    moreover have "strip_escapes s = strip_escapes (drop 2 (dropWhile is_sep s))"
      using True by (subst strip_escapes.simps) simp
    ultimately show ?thesis by simp
  next
    case False
    then have "strip_escapes s = s" by (subst strip_escapes.simps) simp
    with strip_done_no_escape [OF "1.prems" False] show ?thesis by simp
  qed
qed


lemma normal_segs_facts:
  assumes "list_all normal_seg ns"
  shows "''..'' \<notin> set ns" "\<forall>x\<in>set ns. x \<noteq> []" "\<forall>x\<in>set ns. CHR ''/'' \<notin> set x"
  using assms unfolding list_all_iff using normal_seg_simps by blast+

lemma norm_step_True_shape:
  assumes "res = replicate k ''..'' @ ns" "list_all normal_seg ns" "CHR ''/'' \<notin> set s"
  shows "\<exists>k' ns'. norm_step True res s = replicate k' ''..'' @ ns' \<and> list_all normal_seg ns'"
proof -
  consider (skip) "s = [] \<or> s = ''.''" | (up) "s = ''..''" | (seg) "normal_seg s"
    using assms(3) unfolding normal_seg_def by blast
  then show ?thesis
  proof cases
    case skip
    then have "norm_step True res s = res" unfolding norm_step_def by (simp only: if_True)
    with assms show ?thesis by blast
  next
    case up
    show ?thesis
    proof (cases "ns = []")
      case True
      then have r: "res = replicate k ''..''" using assms(1) by simp
      then have "res = [] \<or> last res = ''..''" by (cases k) auto
      then have "norm_step True res s = res @ [''..'']" unfolding norm_step_def up by auto
      also have "\<dots> = replicate (Suc k) ''..'' @ []" by (simp add: r replicate_append_same)
      finally show ?thesis by (intro exI [of _ "Suc k"] exI [of _ "[]"]) simp
    next
      case False
      then have l: "last res = last ns" "res \<noteq> []" using assms(1) by simp_all
      have "normal_seg (last ns)" using False assms(2) by (simp add: list_all_iff)
      then have "last res \<noteq> ''..''" using l normal_seg_simps(3) by metis
      then have "norm_step True res s = butlast res" unfolding norm_step_def up using l(2) by simp
      also have "\<dots> = replicate k ''..'' @ butlast ns" using False assms(1) by (simp add: butlast_append)
      finally have e: "norm_step True res s = replicate k ''..'' @ butlast ns" .
      have "list_all normal_seg (butlast ns)"
        using assms(2) by (simp add: list_all_iff) (meson in_set_butlastD)
      with e show ?thesis by blast
    qed
  next
    case seg
    then have "norm_step True res s = replicate k ''..'' @ (ns @ [s])"
      using assms(1) by (simp add: norm_step_normal)
    moreover have "list_all normal_seg (ns @ [s])" using assms(2) seg by simp
    ultimately show ?thesis by blast
  qed
qed

lemma foldl_norm_True_shape:
  "\<forall>x\<in>set segs. CHR ''/'' \<notin> set x \<Longrightarrow> res = replicate k ''..'' @ ns \<Longrightarrow> list_all normal_seg ns \<Longrightarrow>
   \<exists>k' ns'. foldl (norm_step True) res segs = replicate k' ''..'' @ ns' \<and> list_all normal_seg ns'"
proof (induction segs arbitrary: res k ns)
  case Nil
  then show ?case by auto
next
  case (Cons s segs)
  have s: "CHR ''/'' \<notin> set s" and segs: "\<forall>x\<in>set segs. CHR ''/'' \<notin> set x"
    using Cons.prems(1) by simp_all
  from norm_step_True_shape [OF Cons.prems(2,3) s]
  obtain k' ns' where st: "norm_step True res s = replicate k' ''..'' @ ns'" "list_all normal_seg ns'"
    by blast
  from Cons.IH [OF segs st] show ?case by simp
qed

lemma normalizeString_True_shape:
  "\<exists>k ns. normalizeString True (split_path p) = replicate k ''..'' @ ns \<and> list_all normal_seg ns"
  unfolding normalizeString_def
  by (rule foldl_norm_True_shape [where k = 0 and ns = "[]"]) (simp_all add: split_path_no_slash)

text \<open>The segments of a normalized path, with what may follow them, have the shape.\<close>

lemma shape_of_segments:
  assumes "split_path s = (replicate k ''..'' @ ns) @ t" "list_all normal_seg ns" "''..'' \<notin> set t"
  shows "leading_escapes_only s"
proof -
  have n: "''..'' \<notin> set (ns @ t)" using normal_segs_facts(1) [OF assms(2)] assms(3) by simp
  show ?thesis
  proof (cases k)
    case 0
    then have sp: "split_path s = ns @ t" using assms(1) by simp
    obtain f rest where fr: "ns @ t = f # rest"
      using split_path_nonempty [of s] sp by (cases "ns @ t") auto
    then have "''..'' \<notin> set rest" using n by (metis list.set_intros(2))
    then have "dots_first rest" "\<not> (rest \<noteq> [] \<and> hd rest = ''..'')"
      by (cases rest; auto simp: dots_first_simps)+
    then show ?thesis unfolding leading_escapes_only_def sp fr by auto
  next
    case (Suc m)
    then have sp: "split_path s = ''..'' # replicate m ''..'' @ ns @ t" using assms(1) by simp
    have "dots_first (replicate m ''..'' @ ns @ t)"
      using n by (induction m) (simp_all add: dots_first_simps)
    then show ?thesis unfolding leading_escapes_only_def sp by simp
  qed
qed

lemma normalize_shape: "leading_escapes_only (normalize p)"
proof (cases "p = []")
  case True
  then show ?thesis by (simp add: normalize_def leading_escapes_only_def dots_first_simps)
next
  case False
  define tr where "tr = (if last p = CHR ''/'' then ''/'' else [])"
  define t :: "string list" where "t = (if last p = CHR ''/'' then [[]] else [])"
  have t: "''..'' \<notin> set t" by (simp add: t_def)
  show ?thesis
  proof (cases "isAbsolute p")
    case True
    let ?segs = "normalizeString False (split_path p)"
    have ns: "list_all normal_seg ?segs" by (rule normalizeString_False_normal)
    then have e: "join_segs ?segs = [] \<longleftrightarrow> ?segs = []"
      by (intro join_segs_eq_Nil normal_segs_facts(2))
    have nsl: "\<forall>x\<in>set ?segs. CHR ''/'' \<notin> set x" using ns by (rule normal_segs_facts(3))
    show ?thesis
    proof (cases "?segs = []")
      case True
      then have "normalize p = ''/''" using False \<open>isAbsolute p\<close> by (simp add: normalize_def)
      then show ?thesis by (simp add: leading_escapes_only_def dots_first_simps)
    next
      case nonempty: False
      then have "normalize p = (CHR ''/'' # join_segs ?segs) @ tr"
        using False True e by (simp add: normalize_def Let_def tr_def)
      moreover have "split_path ((CHR ''/'' # join_segs ?segs) @ tr) = (replicate 0 ''..'' @ ([] # ?segs)) @ t"
        using nonempty nsl split_path_append [of "CHR ''/'' # join_segs ?segs" "[]"]
        by (simp add: tr_def t_def split_join)
      ultimately have sp: "split_path (normalize p) = [] # (?segs @ t)" by simp
      have "''..'' \<notin> set (?segs @ t)" using normal_segs_facts(1) [OF ns] t by simp
      then have "dots_first (?segs @ t)" "\<not> (?segs @ t \<noteq> [] \<and> hd (?segs @ t) = ''..'')"
        by (cases "?segs @ t"; auto simp: dots_first_simps)+
      then show ?thesis unfolding leading_escapes_only_def sp by auto
    qed
  next
    case rel: False
    let ?segs = "normalizeString True (split_path p)"
    obtain k ns where kn: "?segs = replicate k ''..'' @ ns" "list_all normal_seg ns"
      using normalizeString_True_shape by blast
    have nonempty_segs: "\<forall>x\<in>set ?segs. x \<noteq> []" "\<forall>x\<in>set ?segs. CHR ''/'' \<notin> set x"
      unfolding kn(1) using normal_segs_facts(2,3) [OF kn(2)] by auto
    then have e: "join_segs ?segs = [] \<longleftrightarrow> ?segs = []"
      by (intro join_segs_eq_Nil)
    show ?thesis
    proof (cases "?segs = []")
      case True
      then have "normalize p = ''.'' \<or> normalize p = ''./''"
        using False rel by (simp add: normalize_def)
      then show ?thesis by (auto simp: leading_escapes_only_def dots_first_simps)
    next
      case nonempty: False
      then have "normalize p = join_segs ?segs @ tr"
        using False rel e by (simp add: normalize_def Let_def tr_def)
      moreover have "split_path (join_segs ?segs @ tr) = ?segs @ t"
        using nonempty nonempty_segs(2) split_path_append [of "join_segs ?segs" "[]"]
        by (simp add: tr_def t_def split_join)
      ultimately have "split_path (normalize p) = (replicate k ''..'' @ ns) @ t"
        by (simp add: kn(1))
      then show ?thesis using kn(2) t by (rule shape_of_segments)
    qed
  qed
qed

lemma safePath_no_escape: "''..'' \<notin> set (split_path (safePath pfx pathname))"
  unfolding safePath_def by (rule strip_escapes_no_escape [OF normalize_shape])


lemma path_join_package:
  assumes "isAbsolute pr" "list_all normal_seg names" "names \<noteq> []"
  shows "path_join (pr # names) = abs_path (normalizeString False (split_path pr) @ names)"
proof -
  have ne: "\<forall>x\<in>set names. x \<noteq> []" and nsl: "\<forall>x\<in>set names. CHR ''/'' \<notin> set x"
    using normal_segs_facts(2,3) [OF assms(2)] by simp_all
  have pr: "pr \<noteq> []" using assms(1) by (simp add: isAbsolute_def)
  let ?p = "pr @ CHR ''/'' # join_segs names"
  let ?segs = "normalizeString False (split_path pr) @ names"
  have f: "filter (\<lambda>a. a \<noteq> []) (pr # names) = pr # names"
    using pr ne by (simp add: filter_id_conv)
  have j: "path_join (pr # names) = normalize ?p"
    using assms(3) pr by (simp add: path_join_def Let_def f join_segs_Cons del: filter.simps)
  have sp: "split_path ?p = split_path pr @ names"
    using assms(3) nsl by (simp add: split_path_append split_join)
  have n: "normalizeString False (split_path ?p) = ?segs"
    unfolding sp normalizeString_def using assms(2) by (simp add: foldl_norm_step_normal)
  have a: "isAbsolute ?p" using assms(1) by (simp add: isAbsolute_def)
  have "last names \<noteq> []" using ne assms(3) by simp
  then have "last (join_segs names) = last (last names)" using assms(3) by (simp add: last_join_segs)
  moreover have "CHR ''/'' \<notin> set (last names)" using nsl assms(3) by simp
  ultimately have l: "last ?p \<noteq> CHR ''/''"
    using \<open>last names \<noteq> []\<close> ne assms(3) by (metis join_segs_eq_Nil last_ConsR last_appendR last_in_set list.distinct(1))
  have "\<forall>x\<in>set ?segs. x \<noteq> []"
    using normal_segs_facts(2) [OF normalizeString_False_normal [of pr]] ne by auto
  then have e: "join_segs ?segs \<noteq> []" using assms(3) by (simp add: join_segs_eq_Nil)
  have "normalize ?p = CHR ''/'' # join_segs ?segs"
    using a l e by (simp add: normalize_def Let_def n)
  then show ?thesis unfolding j abs_path_def .
qed

lemma module_root_shape:
  assumes "isAbsolute pr" "(pfx, root) \<in> set (moduleRoots pr)"
  shows "\<exists>rs. root = abs_path rs \<and> list_all normal_seg rs \<and> rs \<noteq> []"
proof -
  have k: "\<exists>rs. path_join (pr # names) = abs_path rs \<and> list_all normal_seg rs \<and> rs \<noteq> []"
    if "list_all normal_seg names" "names \<noteq> []" for names
    using path_join_package [OF assms(1) that] normalizeString_False_normal [of pr] that
    by (intro exI [of _ "normalizeString False (split_path pr) @ names"]) simp
  have names: "list_all normal_seg [''node_modules'', ''@excalidraw'', ''mermaid-to-excalidraw'', ''dist'']"
    "list_all normal_seg [''node_modules'', ''mermaid'', ''dist'']"
    "list_all normal_seg [''node_modules'', ''nanoid'']"
    "list_all normal_seg [''vendor'', ''markdown-to-text'']"
    "list_all normal_seg [''node_modules'', ''@excalidraw'', ''excalidraw'', ''dist'']"
    "list_all normal_seg [''node_modules'', ''react'', ''umd'']"
    "list_all normal_seg [''node_modules'', ''react-dom'', ''umd'']"
    by (simp_all add: normal_seg_def)
  from assms(2) consider
      "root = path_join [pr, ''node_modules'', ''@excalidraw'', ''mermaid-to-excalidraw'', ''dist'']"
    | "root = path_join [pr, ''node_modules'', ''mermaid'', ''dist'']"
    | "root = path_join [pr, ''node_modules'', ''nanoid'']"
    | "root = path_join [pr, ''vendor'', ''markdown-to-text'']"
    | "root = path_join [pr, ''node_modules'', ''@excalidraw'', ''excalidraw'', ''dist'']"
    | "root = path_join [pr, ''node_modules'', ''react'', ''umd'']"
    | "root = path_join [pr, ''node_modules'', ''react-dom'', ''umd'']"
    unfolding moduleRoots_def by (simp only: set_simps insert_iff empty_iff prod.inject) blast
  then show ?thesis
  proof cases
    case 1 then show ?thesis using k [OF names(1)] by simp
  next
    case 2 then show ?thesis using k [OF names(2)] by simp
  next
    case 3 then show ?thesis using k [OF names(3)] by simp
  next
    case 4 then show ?thesis using k [OF names(4)] by simp
  next
    case 5 then show ?thesis using k [OF names(5)] by simp
  next
    case 6 then show ?thesis using k [OF names(6)] by simp
  next
    case 7 then show ?thesis using k [OF names(7)] by simp
  qed
qed

lemma foldl_norm_False_no_escape:
  "list_all normal_seg rs \<Longrightarrow> ''..'' \<notin> set segs \<Longrightarrow> \<forall>x\<in>set segs. CHR ''/'' \<notin> set x \<Longrightarrow>
   \<exists>ns. foldl (norm_step False) rs segs = rs @ ns \<and> list_all normal_seg ns"
proof (induction segs arbitrary: rs rule: rev_induct)
  case Nil
  then show ?case by simp
next
  case (snoc s segs)
  then obtain ns where ns: "foldl (norm_step False) rs segs = rs @ ns" "list_all normal_seg ns"
    by auto
  have s: "s \<noteq> ''..''" "CHR ''/'' \<notin> set s" using snoc.prems by auto
  consider "s = [] \<or> s = ''.''" | "normal_seg s" using s unfolding normal_seg_def by blast
  then show ?case
  proof cases
    case 1
    then have "norm_step False (rs @ ns) s = rs @ ns" unfolding norm_step_def by (simp only: if_True)
    with ns show ?thesis by simp
  next
    case 2
    then have "norm_step False (rs @ ns) s = rs @ (ns @ [s])" by (simp add: norm_step_normal)
    moreover have "list_all normal_seg (ns @ [s])" using ns(2) 2 by simp
    ultimately show ?thesis using ns(1) by (metis foldl_Cons foldl_Nil foldl_append)
  qed
qed

lemma filePath_inside_root:
  assumes "list_all normal_seg rs" "rs \<noteq> []"
  shows "inside (abs_path rs) (filePath pfx (abs_path rs) pathname)"
proof -
  let ?safe = "safePath pfx pathname"
  have r: "abs_path rs \<noteq> []" by (simp add: abs_path_def)
  have inside_self: "inside (abs_path rs) (abs_path rs)"
    using assms(1) normal_segs_facts(1) [OF assms(1)]
    by (simp add: inside_def split_abs_path normal_seg_def)
  show ?thesis
  proof (cases "?safe = []")
    case True
    then have "filePath pfx (abs_path rs) pathname = normalize (abs_path rs)"
      using r by (simp add: filePath_def path_join_def)
    also have "\<dots> = abs_path rs"
    proof -
      have "normalizeString False (split_path (abs_path rs)) = rs"
        using assms(1) by (rule normalizeString_abs_path_id)
      moreover have "join_segs rs \<noteq> []"
        using normal_segs_facts(2) [OF assms(1)] assms(2) by (simp add: join_segs_eq_Nil)
      moreover have "last (abs_path rs) \<noteq> CHR ''/''"
      proof -
        have "last rs \<noteq> []" using normal_segs_facts(2) [OF assms(1)] assms(2) by simp
        then have "last (join_segs rs) = last (last rs)" using assms(2) by (simp add: last_join_segs)
        moreover have "last (last rs) \<in> set (last rs)" using \<open>last rs \<noteq> []\<close> by simp
        moreover have "CHR ''/'' \<notin> set (last rs)" using normal_segs_facts(3) [OF assms(1)] assms(2) by simp
        ultimately have "last (join_segs rs) \<noteq> CHR ''/''" by metis
        then show ?thesis using \<open>join_segs rs \<noteq> []\<close> by (simp add: abs_path_def)
      qed
      ultimately show ?thesis
        using r by (simp add: normalize_def Let_def isAbsolute_abs_path) (simp add: abs_path_def)
    qed
    finally show ?thesis using inside_self by simp
  next
    case False
    have ne: "''..'' \<notin> set (split_path ?safe)" by (rule safePath_no_escape)
    have nsl: "\<forall>x\<in>set (split_path ?safe). CHR ''/'' \<notin> set x" by (simp add: split_path_no_slash)
    obtain ns where ns: "foldl (norm_step False) rs (split_path ?safe) = rs @ ns" "list_all normal_seg ns"
      using foldl_norm_False_no_escape [OF assms(1) ne nsl] by blast
    define tr where "tr = (if last ?safe = CHR ''/'' then ''/'' else [])"
    have fp: "filePath pfx (abs_path rs) pathname = abs_path (rs @ ns) @ tr"
      using assms(2) by (simp add: filePath_def path_join_abs_path [OF assms(1) False] ns(1) Let_def tr_def)
    have all: "list_all normal_seg (rs @ ns)" using assms(1) ns(2) by simp
    have sp: "split_path (abs_path (rs @ ns) @ tr) = ([] # rs @ ns) @ (if tr = [] then [] else [[]])"
      using assms(2) split_abs_path [OF all] split_path_append [of "abs_path (rs @ ns)" "[]"]
      by (simp add: tr_def)
    have no: "''..'' \<notin> set (split_path (abs_path (rs @ ns) @ tr))"
      unfolding sp using normal_segs_facts(1) [OF all] by simp
    have "abs_path (rs @ ns) @ tr = abs_path rs \<or> startsWith (abs_path (rs @ ns) @ tr) (abs_path rs @ ''/'')"
    proof (cases "ns = []")
      case True
      then show ?thesis by (simp add: tr_def startsWith_def)
    next
      case False
      then have "abs_path (rs @ ns) = (abs_path rs @ ''/'') @ join_segs ns"
        using assms(2) by (simp add: abs_path_def join_segs_append)
      then show ?thesis by (simp add: startsWith_def)
    qed
    with no show ?thesis unfolding fp inside_def by simp
  qed
qed


lemma serve_routes_200:
  "serve_routes routes fs pathname = Response 200 (FileContent c) \<Longrightarrow>
   \<exists>pfx root. (pfx, root) \<in> set routes \<and> startsWith pathname pfx
      \<and> fs (filePath pfx root pathname) = Some (RegularFile c)"
proof (induction routes fs pathname rule: serve_routes.induct)
  case (1 fs pathname)
  then show ?case by simp
next
  case (2 pfx root routes fs pathname)
  show ?case
  proof (cases "startsWith pathname pfx")
    case False
    with 2 show ?thesis by auto
  next
    case True
    with "2.prems" have "fs (filePath pfx root pathname) = Some (RegularFile c)"
      by (auto split: option.splits fs_node.splits)
    with True show ?thesis by auto
  qed
qed

lemma serve_routes_404:
  "(\<And>pfx root. (pfx, root) \<in> set routes \<Longrightarrow> startsWith pathname pfx \<Longrightarrow>
      fs (filePath pfx root pathname) \<noteq> Some UnreadableFile
      \<and> (\<forall>c. fs (filePath pfx root pathname) \<noteq> Some (RegularFile c))) \<Longrightarrow>
   serve_routes routes fs pathname = Response 404 NotFound"
proof (induction routes fs pathname rule: serve_routes.induct)
  case (1 fs pathname)
  then show ?case by simp
next
  case (2 pfx root routes fs pathname)
  show ?case
  proof (cases "startsWith pathname pfx")
    case False
    with 2 show ?thesis by auto
  next
    case True
    with "2.prems" [of pfx root] have "fs (filePath pfx root pathname) \<noteq> Some UnreadableFile"
      "\<forall>c. fs (filePath pfx root pathname) \<noteq> Some (RegularFile c)" by auto
    with True show ?thesis by (auto split: option.splits fs_node.splits)
  qed
qed

lemma pathname_served_inside_roots:
  assumes "isAbsolute packageRoot"
  shows "(\<forall>pfx root. (pfx, root) \<in> set (moduleRoots packageRoot) \<longrightarrow>
            inside root (filePath pfx root pathname))
    \<and> (\<forall>content. handle_pathname packageRoot fs pathname = Response 200 (FileContent content) \<longrightarrow>
          (\<exists>pfx root. (pfx, root) \<in> set (moduleRoots packageRoot) \<and> startsWith pathname pfx
              \<and> inside root (filePath pfx root pathname)
              \<and> fs (filePath pfx root pathname) = Some (RegularFile content)))
    \<and> (pathname \<noteq> ''/'' \<and> pathname \<noteq> ''/index.html''
        \<and> (\<forall>pfx root. (pfx, root) \<in> set (moduleRoots packageRoot) \<and> startsWith pathname pfx \<longrightarrow>
              fs (filePath pfx root pathname) \<noteq> Some UnreadableFile
              \<and> (\<forall>c. fs (filePath pfx root pathname) \<noteq> Some (RegularFile c)))
        \<longrightarrow> handle_pathname packageRoot fs pathname = Response 404 NotFound)"
proof -
  have a: "inside root (filePath pfx root pathname)"
    if "(pfx, root) \<in> set (moduleRoots packageRoot)" for pfx root
  proof -
    from module_root_shape [OF assms that]
    obtain rs where "root = abs_path rs" "list_all normal_seg rs" "rs \<noteq> []" by blast
    then show ?thesis using filePath_inside_root by simp
  qed
  have b: "\<exists>pfx root. (pfx, root) \<in> set (moduleRoots packageRoot) \<and> startsWith pathname pfx
              \<and> inside root (filePath pfx root pathname)
              \<and> fs (filePath pfx root pathname) = Some (RegularFile content)"
    if "handle_pathname packageRoot fs pathname = Response 200 (FileContent content)" for content
  proof -
    from that have "serve_routes (moduleRoots packageRoot) fs pathname = Response 200 (FileContent content)"
      by (simp add: handle_pathname_def split: if_splits)
    from serve_routes_200 [OF this] a show ?thesis by blast
  qed
  have c: "handle_pathname packageRoot fs pathname = Response 404 NotFound"
    if "pathname \<noteq> ''/'' \<and> pathname \<noteq> ''/index.html''
        \<and> (\<forall>pfx root. (pfx, root) \<in> set (moduleRoots packageRoot) \<and> startsWith pathname pfx \<longrightarrow>
              fs (filePath pfx root pathname) \<noteq> Some UnreadableFile
              \<and> (\<forall>c. fs (filePath pfx root pathname) \<noteq> Some (RegularFile c)))"
  proof -
    have "serve_routes (moduleRoots packageRoot) fs pathname = Response 404 NotFound"
      by (rule serve_routes_404) (use that in blast)
    with that show ?thesis by (simp add: handle_pathname_def)
  qed
  from a b c show ?thesis by blast
qed

lemma example_roots:
  "(''/modules/nanoid/'', ''/pkg/node_modules/nanoid'') \<in> set (moduleRoots ''/pkg'')"
  by code_simp

subsection \<open>The URL parser resolves dot segments\<close>

lemma split_where_nonempty: "split_where P s \<noteq> []"
  by (induction s) (auto split: list.splits)

lemma split_where_free: "\<forall>x\<in>set (split_where P s). \<forall>c\<in>set x. \<not> P c"
proof (induction s)
  case Nil
  then show ?case by simp
next
  case (Cons a s)
  obtain x xs where x: "split_where P s = x # xs"
    using split_where_nonempty [of P s] by (cases "split_where P s") auto
  show ?case
  proof (cases "P a")
    case True
    with Cons show ?thesis by simp
  next
    case False
    with Cons x show ?thesis by auto
  qed
qed

lemma upper_hex_not_slash: "upper_hex n \<noteq> CHR ''/''"
proof
  assume "upper_hex n = CHR ''/''"
  then have "(of_char (upper_hex n) :: nat) = 47" by simp
  moreover have "(of_char (upper_hex n) :: nat) \<ge> 48"
    by (simp add: upper_hex_def)
  ultimately show False by simp
qed

lemma percent_byte_no_slash: "CHR ''/'' \<notin> set (percent_byte n)"
  using upper_hex_not_slash [of n] upper_hex_not_slash [of "n div 16"]
  by (auto simp: percent_byte_def)

lemma encode_char_slash: "CHR ''/'' \<in> set (encode_char c) \<Longrightarrow> c = CHR ''/''"
  using percent_byte_no_slash by (auto simp: encode_char_def split: if_splits)

lemma encoded_segment_no_slash:
  "CHR ''/'' \<notin> set seg \<Longrightarrow> CHR ''/'' \<notin> set (concat (map encode_char seg))"
  by (induction seg) (auto dest: encode_char_slash)

lemma double_dot_literal: "is_double_dot ''..''"
  by (simp add: is_double_dot_def)

lemma url_step_kept:
  assumes "\<forall>x\<in>set path. CHR ''/'' \<notin> set x \<and> x \<noteq> ''..''" "CHR ''/'' \<notin> set seg"
  shows "\<forall>x\<in>set (url_step at_end path seg). CHR ''/'' \<notin> set x \<and> x \<noteq> ''..''"
proof -
  let ?b = "concat (map encode_char seg)"
  have b: "CHR ''/'' \<notin> set ?b" using assms(2) by (rule encoded_segment_no_slash)
  have bl: "\<forall>x\<in>set (butlast path). CHR ''/'' \<notin> set x \<and> x \<noteq> ''..''"
    using assms(1) by (meson in_set_butlastD)
  have e: "CHR ''/'' \<notin> set ([] :: string) \<and> ([] :: string) \<noteq> ''..''" by simp
  consider (dd) "is_double_dot ?b" | (sd) "\<not> is_double_dot ?b" "is_single_dot ?b"
    | (seg) "\<not> is_double_dot ?b" "\<not> is_single_dot ?b" by blast
  then show ?thesis
  proof cases
    case dd
    then have "url_step at_end path seg = (if at_end then butlast path @ [[]] else butlast path)"
      by (simp add: url_step_def Let_def)
    with bl e show ?thesis by auto
  next
    case sd
    then have "url_step at_end path seg = (if at_end then path @ [[]] else path)"
      by (simp add: url_step_def Let_def)
    with assms(1) e show ?thesis by auto
  next
    case seg
    then have u: "url_step at_end path seg = path @ [?b]"
      by (simp add: url_step_def Let_def)
    have "?b \<noteq> ''..''" using seg(1) double_dot_literal by metis
    with assms(1) b show ?thesis unfolding u by auto
  qed
qed

lemma url_segments_kept:
  "\<forall>x\<in>set path. CHR ''/'' \<notin> set x \<and> x \<noteq> ''..'' \<Longrightarrow> \<forall>s\<in>set segs. CHR ''/'' \<notin> set s \<Longrightarrow>
   \<forall>x\<in>set (url_segments path segs). CHR ''/'' \<notin> set x \<and> x \<noteq> ''..''"
proof (induction path segs rule: url_segments.induct)
  case (1 path)
  then show ?case by simp
next
  case (2 path seg)
  then show ?case using url_step_kept [of path seg True] by simp
next
  case (3 path seg nxt segs)
  have "\<forall>x\<in>set (url_step False path seg). CHR ''/'' \<notin> set x \<and> x \<noteq> ''..''"
    using "3.prems" url_step_kept [of path seg False] by simp
  from "3.IH" [OF this] "3.prems"(2) show ?case by simp
qed

lemma concat_slash_segments:
  "path \<noteq> [] \<Longrightarrow> concat (map ((#) CHR ''/'') path) = CHR ''/'' # join_segs path"
  by (induction path rule: join_segs.induct) auto

lemma split_concat_slash_segments:
  assumes "\<forall>x\<in>set path. CHR ''/'' \<notin> set x"
  shows "set (split_path (concat (map ((#) CHR ''/'') path))) \<subseteq> insert [] (set path)"
proof (cases "path = []")
  case True
  then show ?thesis by simp
next
  case False
  then have "split_path (concat (map ((#) CHR ''/'') path)) = [] # path"
    using assms by (simp add: concat_slash_segments split_join)
  then show ?thesis by auto
qed

lemma url_pathname_no_dotdot: "''..'' \<notin> set (split_path (url_pathname rest))"
proof -
  let ?segs = "split_where is_sep (takeWhile (\<lambda>c. c \<noteq> CHR ''?'' \<and> c \<noteq> CHR ''#'') rest)"
  have s: "\<forall>s\<in>set ?segs. CHR ''/'' \<notin> set s"
    using split_where_free [of is_sep] by (auto simp: is_sep_def)
  have k: "\<forall>x\<in>set (url_segments [] ?segs). CHR ''/'' \<notin> set x \<and> x \<noteq> ''..''"
    by (rule url_segments_kept [OF _ s]) simp
  then have "set (split_path (url_pathname rest)) \<subseteq> insert [] (set (url_segments [] ?segs))"
    unfolding url_pathname_def by (intro split_concat_slash_segments) blast
  with k show ?thesis by auto
qed

lemma request_pathname_no_dotdot:
  "request_pathname url = Some p \<Longrightarrow> ''..'' \<notin> set (split_path p)"
  using url_pathname_no_dotdot
  by (auto simp: request_pathname_def split: list.splits if_splits)


text \<open>
  Claim C1, amended. For every path and every route of the table, the file path the
  handler computes (suffix normalized, leading \<open>..\<close> sequences stripped, joined to the
  route's directory) lies inside that directory, and a response that carries file content
  carries the content of a regular file at such a path, for a route whose prefix the path
  starts with. The path the handler routes on is the request path with its dot segments
  resolved by the URL parser: it has no \<open>..\<close> segment. A request whose path would lead out
  of its route's directory is therefore answered by where the resolved path lands: with
  404 when it starts with no route prefix and is neither \<open>/\<close> nor \<open>/index.html\<close> (and
  whenever no regular file is found), with the generated page when it is \<open>/\<close> or
  \<open>/index.html\<close>, and from inside the directory of the route whose prefix it starts with
  otherwise.
\<close>

theorem bridge_serves_inside_roots:
  assumes "isAbsolute packageRoot"
  shows "(\<forall>pfx root. (pfx, root) \<in> set (moduleRoots packageRoot) \<longrightarrow>
            inside root (filePath pfx root pathname))
    \<and> (\<forall>content. handle_pathname packageRoot fs pathname = Response 200 (FileContent content) \<longrightarrow>
          (\<exists>pfx root. (pfx, root) \<in> set (moduleRoots packageRoot) \<and> startsWith pathname pfx
              \<and> inside root (filePath pfx root pathname)
              \<and> fs (filePath pfx root pathname) = Some (RegularFile content)))
    \<and> (pathname \<noteq> ''/'' \<and> pathname \<noteq> ''/index.html''
        \<and> (\<forall>pfx root. (pfx, root) \<in> set (moduleRoots packageRoot) \<and> startsWith pathname pfx \<longrightarrow>
              fs (filePath pfx root pathname) \<noteq> Some UnreadableFile
              \<and> (\<forall>c. fs (filePath pfx root pathname) \<noteq> Some (RegularFile c)))
        \<longrightarrow> handle_pathname packageRoot fs pathname = Response 404 NotFound)
    \<and> (\<forall>p. request_pathname url = Some p \<longrightarrow>
          ''..'' \<notin> set (split_path p) \<and> handle_request packageRoot fs url = Some (handle_pathname packageRoot fs p))
    \<and> (\<forall>content. handle_request packageRoot fs url = Some (Response 200 (FileContent content)) \<longrightarrow>
          (\<exists>p pfx root. request_pathname url = Some p
              \<and> (pfx, root) \<in> set (moduleRoots packageRoot) \<and> startsWith p pfx
              \<and> inside root (filePath pfx root p)
              \<and> fs (filePath pfx root p) = Some (RegularFile content)))
    \<and> (\<forall>p. request_pathname url = Some p \<and> p \<noteq> ''/'' \<and> p \<noteq> ''/index.html''
          \<and> (\<forall>pfx root. (pfx, root) \<in> set (moduleRoots packageRoot) \<and> startsWith p pfx \<longrightarrow>
                fs (filePath pfx root p) \<noteq> Some UnreadableFile
                \<and> (\<forall>c. fs (filePath pfx root p) \<noteq> Some (RegularFile c)))
          \<longrightarrow> handle_request packageRoot fs url = Some (Response 404 NotFound))
    \<and> (\<forall>p. request_pathname url = Some p \<and> p \<noteq> ''/'' \<and> p \<noteq> ''/index.html''
          \<and> (\<forall>pfx root. (pfx, root) \<in> set (moduleRoots packageRoot) \<longrightarrow> \<not> startsWith p pfx)
          \<longrightarrow> handle_request packageRoot fs url = Some (Response 404 NotFound))
    \<and> (\<forall>p. request_pathname url = Some p \<and> (p = ''/'' \<or> p = ''/index.html'')
          \<longrightarrow> handle_request packageRoot fs url = Some (Response 200 IndexPage))"
proof -
  note pl = pathname_served_inside_roots [OF assms]
  have 1: "\<forall>pfx root. (pfx, root) \<in> set (moduleRoots packageRoot) \<longrightarrow>
            inside root (filePath pfx root pathname)"
    and 2: "\<forall>content. handle_pathname packageRoot fs pathname = Response 200 (FileContent content) \<longrightarrow>
          (\<exists>pfx root. (pfx, root) \<in> set (moduleRoots packageRoot) \<and> startsWith pathname pfx
              \<and> inside root (filePath pfx root pathname)
              \<and> fs (filePath pfx root pathname) = Some (RegularFile content))"
    and 3: "pathname \<noteq> ''/'' \<and> pathname \<noteq> ''/index.html''
        \<and> (\<forall>pfx root. (pfx, root) \<in> set (moduleRoots packageRoot) \<and> startsWith pathname pfx \<longrightarrow>
              fs (filePath pfx root pathname) \<noteq> Some UnreadableFile
              \<and> (\<forall>c. fs (filePath pfx root pathname) \<noteq> Some (RegularFile c)))
        \<longrightarrow> handle_pathname packageRoot fs pathname = Response 404 NotFound"
    using pl [of pathname fs] by blast+
  have h: "handle_request packageRoot fs url = Some (handle_pathname packageRoot fs p)"
    if "request_pathname url = Some p" for p
    using that by (simp add: handle_request_def)
  have 4: "\<forall>p. request_pathname url = Some p \<longrightarrow>
          ''..'' \<notin> set (split_path p) \<and> handle_request packageRoot fs url = Some (handle_pathname packageRoot fs p)"
    using h request_pathname_no_dotdot by blast
  have 5: "\<forall>content. handle_request packageRoot fs url = Some (Response 200 (FileContent content)) \<longrightarrow>
          (\<exists>p pfx root. request_pathname url = Some p
              \<and> (pfx, root) \<in> set (moduleRoots packageRoot) \<and> startsWith p pfx
              \<and> inside root (filePath pfx root p)
              \<and> fs (filePath pfx root p) = Some (RegularFile content))"
  proof (intro allI impI)
    fix content
    assume a: "handle_request packageRoot fs url = Some (Response 200 (FileContent content))"
    then obtain p where p: "request_pathname url = Some p"
      "handle_pathname packageRoot fs p = Response 200 (FileContent content)"
      by (auto simp: handle_request_def)
    from pl [of p fs] p(2)
    have "\<exists>pfx root. (pfx, root) \<in> set (moduleRoots packageRoot) \<and> startsWith p pfx
              \<and> inside root (filePath pfx root p)
              \<and> fs (filePath pfx root p) = Some (RegularFile content)" by blast
    with p(1) show "\<exists>p pfx root. request_pathname url = Some p
              \<and> (pfx, root) \<in> set (moduleRoots packageRoot) \<and> startsWith p pfx
              \<and> inside root (filePath pfx root p)
              \<and> fs (filePath pfx root p) = Some (RegularFile content)" by blast
  qed
  have 6: "\<forall>p. request_pathname url = Some p \<and> p \<noteq> ''/'' \<and> p \<noteq> ''/index.html''
          \<and> (\<forall>pfx root. (pfx, root) \<in> set (moduleRoots packageRoot) \<and> startsWith p pfx \<longrightarrow>
                fs (filePath pfx root p) \<noteq> Some UnreadableFile
                \<and> (\<forall>c. fs (filePath pfx root p) \<noteq> Some (RegularFile c)))
          \<longrightarrow> handle_request packageRoot fs url = Some (Response 404 NotFound)"
  proof (intro allI impI)
    fix p
    assume a: "request_pathname url = Some p \<and> p \<noteq> ''/'' \<and> p \<noteq> ''/index.html''
          \<and> (\<forall>pfx root. (pfx, root) \<in> set (moduleRoots packageRoot) \<and> startsWith p pfx \<longrightarrow>
                fs (filePath pfx root p) \<noteq> Some UnreadableFile
                \<and> (\<forall>c. fs (filePath pfx root p) \<noteq> Some (RegularFile c)))"
    then have "handle_pathname packageRoot fs p = Response 404 NotFound"
      using pl [of p fs] by blast
    with a h show "handle_request packageRoot fs url = Some (Response 404 NotFound)" by simp
  qed
  have 7: "\<forall>p. request_pathname url = Some p \<and> p \<noteq> ''/'' \<and> p \<noteq> ''/index.html''
          \<and> (\<forall>pfx root. (pfx, root) \<in> set (moduleRoots packageRoot) \<longrightarrow> \<not> startsWith p pfx)
          \<longrightarrow> handle_request packageRoot fs url = Some (Response 404 NotFound)"
    using 6 by blast
  have 8: "\<forall>p. request_pathname url = Some p \<and> (p = ''/'' \<or> p = ''/index.html'')
          \<longrightarrow> handle_request packageRoot fs url = Some (Response 200 IndexPage)"
  proof (intro allI impI)
    fix p
    assume a: "request_pathname url = Some p \<and> (p = ''/'' \<or> p = ''/index.html'')"
    then have "handle_pathname packageRoot fs p = Response 200 IndexPage"
      unfolding handle_pathname_def by (simp only: if_True)
    with a h show "handle_request packageRoot fs url = Some (Response 200 IndexPage)" by simp
  qed
  from 1 2 3 4 5 6 7 8 show ?thesis by (intro conjI)
qed

lemma example_requests:
  "request_pathname ''/modules/nanoid/../mermaid/mermaid.esm.mjs'' = Some ''/modules/mermaid/mermaid.esm.mjs''"
  "request_pathname ''/modules/nanoid/../../index.html'' = Some ''/index.html''"
  "request_pathname ''/modules/nanoid/../../etc/passwd'' = Some ''/etc/passwd''"
  by code_simp+

lemma example_unsafe_joins:
  "path_join [''/pkg/node_modules/nanoid'',
      drop (length ''/modules/nanoid/'') ''/modules/nanoid/../mermaid/mermaid.esm.mjs'']
     = ''/pkg/node_modules/mermaid/mermaid.esm.mjs''"
  "path_join [''/pkg/node_modules/nanoid'',
      drop (length ''/modules/nanoid/'') ''/modules/nanoid/../../index.html'']
     = ''/pkg/index.html''"
  by code_simp+

lemma example_responses:
  "handle_request ''/pkg'' [''/pkg/node_modules/mermaid/dist/mermaid.esm.mjs'' \<mapsto> RegularFile ''export {}'']
     ''/modules/nanoid/../mermaid/mermaid.esm.mjs'' = Some (Response 200 (FileContent ''export {}''))"
  "handle_request ''/pkg'' Map.empty ''/modules/nanoid/../../index.html'' = Some (Response 200 IndexPage)"
  by code_simp+

text \<open>
  Claim C1, as stated, says that a request whose path leads out of the route's directory
  is answered with 404 and never with file content. The request
  \<open>/modules/nanoid/../../index.html\<close> starts with a route prefix and its suffix leads out
  of the route's directory; the URL parser resolves it to \<open>/index.html\<close> and the answer
  is 200 with the generated page. The request \<open>/modules/nanoid/../mermaid/mermaid.esm.mjs\<close>
  is resolved to a path under the prefix of another route and answered 200 with that
  route's file.
\<close>

theorem escaping_request_counterexample:
  "(''/modules/nanoid/'', ''/pkg/node_modules/nanoid'') \<in> set (moduleRoots ''/pkg'')
   \<and> startsWith ''/modules/nanoid/../../index.html'' ''/modules/nanoid/''
   \<and> \<not> inside ''/pkg/node_modules/nanoid''
        (path_join [''/pkg/node_modules/nanoid'',
           drop (length ''/modules/nanoid/'') ''/modules/nanoid/../../index.html''])
   \<and> handle_request ''/pkg'' Map.empty ''/modules/nanoid/../../index.html'' = Some (Response 200 IndexPage)
   \<and> startsWith ''/modules/nanoid/../mermaid/mermaid.esm.mjs'' ''/modules/nanoid/''
   \<and> \<not> inside ''/pkg/node_modules/nanoid''
        (path_join [''/pkg/node_modules/nanoid'',
           drop (length ''/modules/nanoid/'') ''/modules/nanoid/../mermaid/mermaid.esm.mjs''])
   \<and> handle_request ''/pkg''
        [''/pkg/node_modules/mermaid/dist/mermaid.esm.mjs'' \<mapsto> RegularFile ''export {}'']
        ''/modules/nanoid/../mermaid/mermaid.esm.mjs'' = Some (Response 200 (FileContent ''export {}''))"
proof -
  have 2: "startsWith ''/modules/nanoid/../../index.html'' ''/modules/nanoid/''"
    "startsWith ''/modules/nanoid/../mermaid/mermaid.esm.mjs'' ''/modules/nanoid/''"
    by (simp_all add: startsWith_def)
  have 3: "\<not> inside ''/pkg/node_modules/nanoid'' ''/pkg/index.html''"
    "\<not> inside ''/pkg/node_modules/nanoid'' ''/pkg/node_modules/mermaid/mermaid.esm.mjs''"
    by (simp_all add: inside_def startsWith_def)
  show ?thesis
    using example_roots 2 3 by (simp only: example_unsafe_joins example_responses simp_thms)
qed

theorem bridge_serves_inside_roots_witness:
  "isAbsolute ''/pkg''
   \<and> (''/modules/nanoid/'', ''/pkg/node_modules/nanoid'') \<in> set (moduleRoots ''/pkg'')
   \<and> inside ''/pkg/node_modules/nanoid''
        (filePath ''/modules/nanoid/'' ''/pkg/node_modules/nanoid'' ''/modules/nanoid/index.browser.js'')
   \<and> request_pathname ''/modules/nanoid/../../etc/passwd'' = Some ''/etc/passwd''
   \<and> ''..'' \<notin> set (split_path ''/etc/passwd'')
   \<and> handle_request ''/pkg'' Map.empty ''/modules/nanoid/../../etc/passwd'' = Some (Response 404 NotFound)"
proof -
  have 1: "isAbsolute ''/pkg''" by (simp add: isAbsolute_def)
  note t = bridge_serves_inside_roots [OF 1, of "''/modules/nanoid/index.browser.js''" Map.empty
      "''/modules/nanoid/../../etc/passwd''"]
  have a: "inside ''/pkg/node_modules/nanoid''
        (filePath ''/modules/nanoid/'' ''/pkg/node_modules/nanoid'' ''/modules/nanoid/index.browser.js'')"
    using t example_roots by blast
  have r: "request_pathname ''/modules/nanoid/../../etc/passwd'' = Some ''/etc/passwd''"
    by (rule example_requests(3))
  have n: "''/etc/passwd'' \<noteq> ''/'' \<and> ''/etc/passwd'' \<noteq> ''/index.html''" by simp
  have d: "''..'' \<notin> set (split_path ''/etc/passwd'')" using t r by blast
  have e: "\<forall>pfx root. (pfx, root) \<in> set (moduleRoots ''/pkg'') \<and> startsWith ''/etc/passwd'' pfx \<longrightarrow>
      Map.empty (filePath pfx root ''/etc/passwd'') \<noteq> Some UnreadableFile
      \<and> (\<forall>c. Map.empty (filePath pfx root ''/etc/passwd'') \<noteq> Some (RegularFile c))" by simp
  have b: "handle_request ''/pkg'' Map.empty ''/modules/nanoid/../../etc/passwd'' = Some (Response 404 NotFound)"
    using t r n e by blast
  from 1 example_roots a r d b show ?thesis by (intro conjI)
qed


section \<open>The scene document\<close>

lemma indent_simps: "indent 0 = []" "indent (Suc 0) = ''  ''" "indent (Suc (Suc 0)) = ''    ''"
  by (simp_all add: indent_def numeral_2_eq_2 numeral_Bit0)

lemma or_empty_object_page_files: "or_empty_object (page_files f) = or_empty_object f"
  by (cases f; simp add: or_empty_object_def page_files_def split: json.splits option.splits)

text \<open>
  Claim C3, amended. The scene document has exactly the members \<open>type\<close> (the text
  \<open>excalidraw\<close>), \<open>version\<close> (2), \<open>source\<close> (\<open>https://excalidraw.com\<close>), \<open>elements\<close> (what the
  page returned), \<open>appState\<close> (with \<open>viewBackgroundColor\<close> \<open>#ffffff\<close>) and \<open>files\<close>, which is
  the empty object when the library returned none; and the text written is this object
  with one member per line, indented by two spaces per level.
\<close>

theorem scene_document_shape:
  "scene elements lib_files =
     JObject [(''type'', JString ''excalidraw''), (''version'', JNumber ''2''),
              (''source'', JString ''https://excalidraw.com''), (''elements'', elements),
              (''appState'', JObject [(''viewBackgroundColor'', JString ''#ffffff'')]),
              (''files'', or_empty_object lib_files)]
   \<and> or_empty_object None = JObject [] \<and> or_empty_object (Some JNull) = JObject []
   \<and> scene_text elements lib_files =
       ''{'' @ [CHR 0x0A] @ ''  '' @ quote ''type'' @ '': '' @ quote ''excalidraw'' @ '','' @
       [CHR 0x0A] @ ''  '' @ quote ''version'' @ '': 2,'' @
       [CHR 0x0A] @ ''  '' @ quote ''source'' @ '': '' @ quote ''https://excalidraw.com'' @ '','' @
       [CHR 0x0A] @ ''  '' @ quote ''elements'' @ '': '' @ stringify (Suc 0) elements @ '','' @
       [CHR 0x0A] @ ''  '' @ quote ''appState'' @ '': {'' @
       [CHR 0x0A] @ ''    '' @ quote ''viewBackgroundColor'' @ '': '' @ quote ''#ffffff'' @
       [CHR 0x0A] @ ''  },'' @
       [CHR 0x0A] @ ''  '' @ quote ''files'' @ '': '' @ stringify (Suc 0) (or_empty_object lib_files) @
       [CHR 0x0A] @ ''}''"
proof -
  have a: "scene elements lib_files =
     JObject [(''type'', JString ''excalidraw''), (''version'', JNumber ''2''),
              (''source'', JString ''https://excalidraw.com''), (''elements'', elements),
              (''appState'', JObject [(''viewBackgroundColor'', JString ''#ffffff'')]),
              (''files'', or_empty_object lib_files)]"
    by (simp add: scene_def or_empty_object_page_files)
  have b: "or_empty_object None = JObject []" "or_empty_object (Some JNull) = JObject []"
    by (simp_all add: or_empty_object_def)
  have c: "scene_text elements lib_files =
       ''{'' @ [CHR 0x0A] @ ''  '' @ quote ''type'' @ '': '' @ quote ''excalidraw'' @ '','' @
       [CHR 0x0A] @ ''  '' @ quote ''version'' @ '': 2,'' @
       [CHR 0x0A] @ ''  '' @ quote ''source'' @ '': '' @ quote ''https://excalidraw.com'' @ '','' @
       [CHR 0x0A] @ ''  '' @ quote ''elements'' @ '': '' @ stringify (Suc 0) elements @ '','' @
       [CHR 0x0A] @ ''  '' @ quote ''appState'' @ '': {'' @
       [CHR 0x0A] @ ''    '' @ quote ''viewBackgroundColor'' @ '': '' @ quote ''#ffffff'' @
       [CHR 0x0A] @ ''  },'' @
       [CHR 0x0A] @ ''  '' @ quote ''files'' @ '': '' @ stringify (Suc 0) (or_empty_object lib_files) @
       [CHR 0x0A] @ ''}''"
    unfolding scene_text_def a by (simp add: indent_simps)
  from a b c show ?thesis by (intro conjI)
qed

text \<open>
  Claim C3, as stated, gives the member \<open>type\<close> the value \<open>excalidraw-scene\<close>; the
  program writes \<open>excalidraw\<close>.
\<close>

theorem scene_type_counterexample:
  "member ''type'' (scene (JArray []) None) = Some (JString ''excalidraw'')
   \<and> member ''type'' (scene (JArray []) None) \<noteq> Some (JString ''excalidraw-scene'')"
  by (simp add: member_def scene_def)

section \<open>Acquisition and release\<close>

lemma parse_single_input:
  "parseArgs [''a.mmd''] = Returned \<lparr> pa_input = ''a.mmd'', pa_output = None, pa_options = DEFAULTS \<rparr>"
  by (simp add: parseArgs_def classify_examples initial_state_def final_output_def)

text \<open>
  Claim C2, as stated, has every acquired resource released by the finalization block,
  also when the server has started and the browser launch fails. In that run the block
  is not entered and the server is still listening when \<open>run\<close> rejects.
\<close>

theorem launch_failure_counterexample:
  "server_listening (held (run [''a.mmd'']
      \<lparr> stat_ok = True, server_ok = True, launch_ok = False, newPage_ok = True, work_ok = True,
        page_close_ok = True, browser_close_ok = True \<rparr>))
   \<and> \<not> finalizer_entered (run [''a.mmd'']
      \<lparr> stat_ok = True, server_ok = True, launch_ok = False, newPage_ok = True, work_ok = True,
        page_close_ok = True, browser_close_ok = True \<rparr>)"
  by (simp add: run_def parse_single_input no_resources_def)

text \<open>
  Claim C2, amended. The finalization block is entered exactly in the runs that acquired
  the server, the browser and the page, whether the work then succeeds or fails; when its
  releases go through, nothing is held afterwards (the page is closed as soon as its
  own release goes through). A run that settles while something is still held ends the
  process with exit code 1, and a run that ends with exit code 0 after parsing has
  gone through the block and holds nothing.
\<close>

theorem finalizer_covers_full_acquisition:
  "(finalizer_entered (run argv oc) \<longleftrightarrow>
      (\<exists>args. parseArgs argv = Returned args) \<and> stat_ok oc \<and> server_ok oc \<and> launch_ok oc \<and> newPage_ok oc)
   \<and> (finalizer_entered (run argv oc) \<and> page_close_ok oc \<and> browser_close_ok oc \<longrightarrow>
        held (run argv oc) = no_resources)
   \<and> (finalizer_entered (run argv oc) \<and> page_close_ok oc \<longrightarrow> \<not> page_open (held (run argv oc)))
   \<and> (held (run argv oc) \<noteq> no_resources \<longrightarrow> exit_code (run argv oc) = 1)
   \<and> (exit_code (run argv oc) = 0 \<and> parseArgs argv \<noteq> HelpExit \<longrightarrow>
        finalizer_entered (run argv oc) \<and> work_ok oc \<and> held (run argv oc) = no_resources)"
proof (cases "parseArgs argv")
  case HelpExit
  then show ?thesis by (simp add: run_def)
next
  case (Thrown b m)
  then show ?thesis by (simp add: run_def)
next
  case (Returned args)
  then show ?thesis
    by (simp add: run_def finalizer_def no_resources_def Let_def)
qed

theorem finalizer_covers_full_acquisition_witness:
  "finalizer_entered (run [''a.mmd'']
      \<lparr> stat_ok = True, server_ok = True, launch_ok = True, newPage_ok = True, work_ok = False,
        page_close_ok = True, browser_close_ok = True \<rparr>)
   \<and> held (run [''a.mmd'']
      \<lparr> stat_ok = True, server_ok = True, launch_ok = True, newPage_ok = True, work_ok = False,
        page_close_ok = True, browser_close_ok = True \<rparr>) = no_resources
   \<and> exit_code (run [''a.mmd'']
      \<lparr> stat_ok = True, server_ok = True, launch_ok = True, newPage_ok = True, work_ok = False,
        page_close_ok = True, browser_close_ok = True \<rparr>) = 1"
proof -
  let ?oc = "\<lparr> stat_ok = True, server_ok = True, launch_ok = True, newPage_ok = True, work_ok = False,
        page_close_ok = True, browser_close_ok = True \<rparr>"
  note t = finalizer_covers_full_acquisition [of "[''a.mmd'']" ?oc]
  have p: "\<exists>args. parseArgs [''a.mmd''] = Returned args" using parse_single_input by blast
  have a: "finalizer_entered (run [''a.mmd''] ?oc)" using t p by simp
  have b: "held (run [''a.mmd''] ?oc) = no_resources" using t a by simp
  have c: "exit_code (run [''a.mmd''] ?oc) = 1"
    by (simp add: run_def parse_single_input finalizer_def Let_def)
  from a b c show ?thesis by (intro conjI)
qed


end
